theory Spec2Isabelle
  imports Main "HOL-Library.Sublist"
begin

section \<open>Strings of the JavaScript sources\<close>

text \<open>
  A JavaScript string is modelled as a \<^typ>\<open>string\<close>, one list element per UTF-16
  code unit, the unit \<open>str.length\<close> and the string indices count: \<open>str.length\<close> is
  \<^const>\<open>length\<close>, \<open>str.substring(0, n)\<close> with \<open>0 \<le> n\<close> is \<^term>\<open>take n str\<close> (an end
  index beyond the string is clamped by JavaScript and by \<^const>\<open>take\<close> alike),
  \<open>str.substring(n)\<close> is \<^term>\<open>drop n str\<close> and \<open>+\<close> is \<open>@\<close>. Where the source turns
  strings into buffers, in the signature verification, the elements are the bytes
  of the buffer. A value that may be \<open>undefined\<close> is a \<^typ>\<open>string option\<close>.
\<close>

section \<open>Values, requests and the platform\<close>

text \<open>
  Request bodies and payloads are JSON values as the platform's body parser and
  \<open>JSON.parse\<close> produce them, with \<open>undefined\<close> added for an absent value. Numbers are
  only tested for truthiness and passed on, so an integer stands for the number.
  An object is its list of own properties.
\<close>

datatype json =
    JUndefined
  | JNull
  | JBool bool
  | JNum int
  | JStr string
  | JArr "json list"
  | JObj "(string \<times> json) list"

datatype error = TypeError | RangeError | SyntaxError | Thrown string

text \<open>
  What the sources take from the JavaScript runtime and from Node, as parameters:
  \<^item> \<open>hmacSha256Hex key msg\<close> is
    \<open>crypto.createHmac('sha256', key).update(msg).digest('hex')\<close>;
  \<^item> \<open>parseInt\<close>, \<open>None\<close> for \<open>NaN\<close>;
  \<^item> \<open>jsonStringify\<close> is \<open>JSON.stringify\<close> as a template string shows its result
    (\<open>undefined\<close> prints as \<open>undefined\<close>);
  \<^item> \<open>jsonParse\<close> is \<open>JSON.parse\<close>, \<open>None\<close> when it throws a SyntaxError;
  \<^item> \<open>toString\<close> is the conversion a template string applies to a value that is
    not a string;
  \<^item> \<open>errorMessage\<close> is the \<open>message\<close> of a thrown error;
  \<^item> \<open>fetchResolves url body\<close> tells whether that \<open>fetch\<close> resolves; a rejected
    \<open>fetch\<close> throws a TypeError at its \<open>await\<close>.
\<close>

record platform =
  hmacSha256Hex :: "string \<Rightarrow> string \<Rightarrow> string"
  parseInt :: "string \<Rightarrow> int option"
  jsonStringify :: "json \<Rightarrow> string"
  jsonParse :: "string \<Rightarrow> json option"
  toString :: "json \<Rightarrow> string"
  errorMessage :: "error \<Rightarrow> string"
  fetchResolves :: "json \<Rightarrow> json \<Rightarrow> bool"

record env =
  SLACK_SIGNING_SECRET :: "string option"
  SLACK_BOT_TOKEN :: "string option"

record request =
  httpMethod :: string
  headers :: "string \<Rightarrow> string option"
  body :: json

text \<open>An outbound \<open>fetch(target, {..., body: JSON.stringify(payload)})\<close>.\<close>

record call =
  call_target :: json
  call_payload :: json

text \<open>
  What a handler did: the status and JSON body it sent with \<open>res\<close> (\<open>None\<close> when it
  sent nothing), the outbound calls in order, and the error that left the handler
  uncaught, if any.
\<close>

record outcome =
  sent :: "(nat \<times> json) option"
  fetched :: "call list"
  uncaught :: "error option"

text \<open>
  The command and action handlers of slack-commands.js and slack-actions.js, each
  of which makes its own calls to the tracker or the LLM and then returns a message
  or throws. The two \<open>handler\<close> functions only select one of them, so they are
  parameters here: the calls made, then the error thrown or the message returned.
\<close>

type_synonym handled = "call list \<times> (error + json)"

record command_handlers =
  handleBugCommand :: "json \<Rightarrow> json \<Rightarrow> handled"
  handleFeatureCommand :: "json \<Rightarrow> json \<Rightarrow> handled"
  handleAskClaudeCommand :: "json \<Rightarrow> json \<Rightarrow> handled"
  handleBugStatusCommand :: "json \<Rightarrow> handled"
  handleDeployCommand :: "json \<Rightarrow> json \<Rightarrow> handled"
  handleApprovePRCommand :: "json \<Rightarrow> json \<Rightarrow> handled"

record action_handlers =
  handleTriggerAIAnalysis :: "json \<Rightarrow> handled"
  handleApproveMergePR :: "json \<Rightarrow> json \<Rightarrow> handled"
  handleRejectPR :: "json \<Rightarrow> json \<Rightarrow> handled"
  handleConfirmDeploy :: "json \<Rightarrow> json \<Rightarrow> handled"
  handleAcknowledgeIncident :: "json \<Rightarrow> json \<Rightarrow> handled"
  handleAddToRoadmap :: "json \<Rightarrow> handled"

text \<open>
  The six per-kind builders of slack-notify, which \<open>buildMessage\<close> selects from;
  each returns a message or throws.
\<close>

record builders =
  buildBugMessage :: "json \<Rightarrow> error + json"
  buildFeatureMessage :: "json \<Rightarrow> error + json"
  buildDeploymentMessage :: "json \<Rightarrow> error + json"
  buildDigestMessage :: "json \<Rightarrow> error + json"
  buildIncidentMessage :: "json \<Rightarrow> error + json"
  buildPRMessage :: "json \<Rightarrow> error + json"

text \<open>A message handed to \<open>chat.postMessage\<close>.\<close>

record slack_post =
  post_channel :: string
  post_text :: string
  post_thread_ts :: string

text \<open>An entry of a conversation history, \<open>{ role, content }\<close>.\<close>

record chat_message =
  role :: string
  content :: string

text \<open>
  An error report as \<open>groupErrors\<close> reads it, each field as the string a template
  string makes of it, and a group \<open>{ ...err, count }\<close>. The other properties of a
  report go into the group with these and play no part in the grouping.
\<close>

record report =
  errType :: string
  errMessage :: string
  errSeverity :: string
  errTimestamp :: string

record error_group = report +
  count :: nat

text \<open>JavaScript truthiness, as \<open>!x\<close>, \<open>x && y\<close>, \<open>x || y\<close> and \<open>if (x)\<close> use it.\<close>

fun truthy :: "json \<Rightarrow> bool" where
  "truthy JUndefined = False"
| "truthy JNull = False"
| "truthy (JBool b) = b"
| "truthy (JNum n) = (n \<noteq> 0)"
| "truthy (JStr s) = (s \<noteq> [])"
| "truthy (JArr xs) = True"
| "truthy (JObj kvs) = True"

text \<open>
  A header or an environment variable is a string or absent; \<open>!x\<close> holds when it is
  absent or empty.
\<close>

definition present :: "string option \<Rightarrow> bool" where
  "present x = (case x of None \<Rightarrow> False | Some s \<Rightarrow> s \<noteq> [])"

text \<open>
  Reading a property \<open>x.name\<close>: a TypeError on \<open>undefined\<close> and \<open>null\<close>, the own
  property of an object, \<open>undefined\<close> otherwise. It is used for the names the handlers
  read (\<open>command\<close>, \<open>text\<close>, \<open>user_name\<close>, \<open>response_url\<close>, \<open>payload\<close>, \<open>actions\<close>,
  \<open>action_id\<close>, \<open>value\<close>, \<open>user\<close>), none of which a prototype provides.
\<close>

fun property :: "json \<Rightarrow> string \<Rightarrow> error + json" where
  "property JUndefined name = Inl TypeError"
| "property JNull name = Inl TypeError"
| "property (JObj kvs) name = Inr (case map_of kvs name of None \<Rightarrow> JUndefined | Some v \<Rightarrow> v)"
| "property v name = Inr JUndefined"

text \<open>The same on a value known to be neither \<open>undefined\<close> nor \<open>null\<close>.\<close>

definition field :: "json \<Rightarrow> string \<Rightarrow> json" where
  "field v name = (case property v name of Inl e \<Rightarrow> JUndefined | Inr x \<Rightarrow> x)"

text \<open>\<open>x[0]\<close> on a truthy value.\<close>

fun element0 :: "json \<Rightarrow> json" where
  "element0 (JArr (x # xs)) = x"
| "element0 (JStr (c # cs)) = JStr [c]"
| "element0 (JObj kvs) = (case map_of kvs ''0'' of None \<Rightarrow> JUndefined | Some v \<Rightarrow> v)"
| "element0 v = JUndefined"

text \<open>A value inside a template string, and as the argument of \<open>JSON.parse\<close>.\<close>

definition interpolate :: "platform \<Rightarrow> json \<Rightarrow> string" where
  "interpolate P v = (case v of JStr s \<Rightarrow> s | _ \<Rightarrow> toString P v)"

text \<open>
  A JavaScript \<open>Map\<close>, and an object used as a dictionary with keys that are not
  array indices: the entries in insertion order. \<open>set\<close> on a present key replaces
  the value where it stands, on a new key it appends; \<open>delete\<close> removes the entry.
\<close>

fun Map_set :: "'k \<Rightarrow> 'v \<Rightarrow> ('k \<times> 'v) list \<Rightarrow> ('k \<times> 'v) list" where
  "Map_set k v [] = [(k, v)]"
| "Map_set k v ((k', v') # rest) =
     (if k' = k then (k, v) # rest else (k', v') # Map_set k v rest)"

definition Map_delete :: "'k \<Rightarrow> ('k \<times> 'v) list \<Rightarrow> ('k \<times> 'v) list" where
  "Map_delete k m = filter (\<lambda>e. fst e \<noteq> k) m"

section \<open>truncate (report-error.js, slack-notify, submit-feedback)\<close>

text \<open>
  \<^verbatim>\<open>
  function truncate(str, maxLen) {
    if (!str) return '';
    return str.length > maxLen ? str.substring(0, maxLen) + '...' : str;
  }
  \<close>
  \<open>!str\<close> holds for \<open>undefined\<close> and for the empty string. Every call site passes a
  literal natural number as \<open>maxLen\<close> (8, 50, 60, 80, 300).
\<close>

definition truncate :: "string option \<Rightarrow> nat \<Rightarrow> string" where
  "truncate str maxLen =
     (case str of
        None \<Rightarrow> []
      | Some s \<Rightarrow>
          if s = [] then []
          else if length s > maxLen then take maxLen s @ ''...'' else s)"

section \<open>Signature verification (slack-commands.js, slack-actions.js, slack-claude.js)\<close>

text \<open>
  \<open>crypto.timingSafeEqual(a, b)\<close> of Node: it throws a RangeError when the two
  buffers differ in byte length and compares them otherwise. \<open>Buffer.from(str)\<close> is
  the UTF-8 encoding of the string; in this section a string is the list of those
  bytes, so that two strings are equal exactly when their buffers are.
\<close>

definition timingSafeEqual :: "string \<Rightarrow> string \<Rightarrow> error + bool" where
  "timingSafeEqual a b = (if length a \<noteq> length b then Inl RangeError else Inr (a = b))"

text \<open>
  \<^verbatim>\<open>const body = typeof req.body === 'string' ? req.body : JSON.stringify(req.body);\<close>
\<close>

definition bodyText :: "platform \<Rightarrow> request \<Rightarrow> string" where
  "bodyText P req = (case body req of JStr s \<Rightarrow> s | b \<Rightarrow> jsonStringify P b)"

text \<open>
  \<^verbatim>\<open>
  function verifySlackSignature(req) {
    const timestamp = req.headers['x-slack-request-timestamp'];
    const signature = req.headers['x-slack-signature'];
    const signingSecret = process.env.SLACK_SIGNING_SECRET;
    if (!timestamp || !signature || !signingSecret) return false;
    const now = Math.floor(Date.now() / 1000);
    if (Math.abs(now - parseInt(timestamp)) > 300) return false;
    const body = typeof req.body === 'string' ? req.body : JSON.stringify(req.body);
    const sigBasestring = `v0:${timestamp}:${body}`;
    const mySignature = 'v0=' + crypto.createHmac('sha256', signingSecret)
                                      .update(sigBasestring).digest('hex');
    return crypto.timingSafeEqual(Buffer.from(mySignature), Buffer.from(signature));
  }
  \<close>
  \<open>dateNow\<close> is \<open>Date.now()\<close>, in milliseconds. With \<open>parseInt(timestamp)\<close> being
  \<open>NaN\<close> the comparison \<open>NaN > 300\<close> is false and the function goes on. The three
  copies of the function in the three files are the same but for a comment.
\<close>

definition verifySlackSignature :: "platform \<Rightarrow> int \<Rightarrow> env \<Rightarrow> request \<Rightarrow> error + bool" where
  "verifySlackSignature P dateNow E req =
     (case (headers req ''x-slack-request-timestamp'', headers req ''x-slack-signature'',
            SLACK_SIGNING_SECRET E) of
        (Some timestamp, Some signature, Some signingSecret) \<Rightarrow>
          if timestamp = [] \<or> signature = [] \<or> signingSecret = [] then Inr False
          else
            let now = dateNow div 1000 in
            if (case parseInt P timestamp of None \<Rightarrow> False | Some t \<Rightarrow> \<bar>now - t\<bar> > 300)
            then Inr False
            else
              let sigBasestring = ''v0:'' @ timestamp @ '':'' @ bodyText P req;
                  mySignature = ''v0='' @ hmacSha256Hex P signingSecret sigBasestring
              in timingSafeEqual mySignature signature
      | _ \<Rightarrow> Inr False)"

section \<open>Posting a reply in chunks (slack-claude.js)\<close>

text \<open>
  \<open>str.lastIndexOf(c, fromIndex)\<close> for a one-character search string: the greatest
  index \<open>i \<le> fromIndex\<close> with \<open>str[i] = c\<close>, and \<open>-1\<close> when there is none. The scan
  runs over the first \<open>fromIndex + 1\<close> characters and keeps the last index seen.
\<close>

fun lastIndexOf_scan :: "char \<Rightarrow> string \<Rightarrow> nat \<Rightarrow> int \<Rightarrow> int" where
  "lastIndexOf_scan c [] i found = found"
| "lastIndexOf_scan c (x # xs) i found =
     lastIndexOf_scan c xs (Suc i) (if x = c then int i else found)"

definition lastIndexOf :: "string \<Rightarrow> char \<Rightarrow> nat \<Rightarrow> int" where
  "lastIndexOf str c fromIndex = lastIndexOf_scan c (take (Suc fromIndex) str) 0 (- 1)"

definition maxLen :: nat where
  "maxLen = 3900"

definition newline :: char where
  "newline = CHR 0x0A"

text \<open>
  \<^verbatim>\<open>
  let splitIdx = remaining.lastIndexOf('\n', maxLen);
  if (splitIdx < maxLen / 2) splitIdx = maxLen;
  \<close>
  \<open>maxLen / 2\<close> is 1950 exactly.
\<close>

definition splitIdx :: "string \<Rightarrow> int" where
  "splitIdx remaining =
     (let i = lastIndexOf remaining newline maxLen
      in if i < int maxLen div 2 then int maxLen else i)"

text \<open>
  \<^verbatim>\<open>
  const chunks = [];
  let remaining = text;
  while (remaining.length > 0) {
    if (remaining.length <= maxLen) { chunks.push(remaining); break; }
    let splitIdx = ...;
    chunks.push(remaining.substring(0, splitIdx));
    remaining = remaining.substring(splitIdx);
  }
  \<close>
  The loop as a recursive function of \<open>remaining\<close>, returning the chunks pushed from
  there on. It is total: the termination proof below shows that every turn of the
  loop shortens \<open>remaining\<close>.
\<close>

function chunks :: "string \<Rightarrow> string list" where
  "chunks remaining =
     (if length remaining > 0 then
        if length remaining \<le> maxLen then [remaining]
        else take (nat (splitIdx remaining)) remaining
               # chunks (drop (nat (splitIdx remaining)) remaining)
      else [])"
  by pat_completeness auto
termination
  by (relation "measure length") (auto simp: splitIdx_def maxLen_def Let_def)

declare chunks.simps [simp del]

text \<open>
  \<^verbatim>\<open>
  async function postToSlack(channel, text, threadTs) {
    const botToken = process.env.SLACK_BOT_TOKEN;
    if (!botToken) { console.error(...); return; }
    ...
    for (const chunk of chunks) {
      await fetch('https://slack.com/api/chat.postMessage', {
        method: 'POST', headers: { ... },
        body: JSON.stringify({ channel: channel, text: chunk, thread_ts: threadTs,
                               unfurl_links: false }),
      });
    }
  }
  \<close>
  The \<open>for\<close> loop awaits each \<open>fetch\<close> with no \<open>try\<close> around it: a \<open>fetch\<close> that is
  rejected ends the function with its error, and the chunks after it are not
  handed over. The result is the list of messages handed to \<open>chat.postMessage\<close>, in
  order, and the error that ended the function, if any.
\<close>

definition postMessageUrl :: json where
  "postMessageUrl = JStr ''https://slack.com/api/chat.postMessage''"

definition postMessageBody :: "string \<Rightarrow> string \<Rightarrow> string \<Rightarrow> json" where
  "postMessageBody channel chunk threadTs =
     JObj [(''channel'', JStr channel), (''text'', JStr chunk), (''thread_ts'', JStr threadTs),
           (''unfurl_links'', JBool False)]"

fun post_loop ::
  "platform \<Rightarrow> string \<Rightarrow> string \<Rightarrow> string list \<Rightarrow> slack_post list \<times> error option" where
  "post_loop P channel threadTs [] = ([], None)"
| "post_loop P channel threadTs (chunk # rest) =
     (if fetchResolves P postMessageUrl (postMessageBody channel chunk threadTs)
      then (case post_loop P channel threadTs rest of
              (posts, failure) \<Rightarrow>
                (\<lparr>post_channel = channel, post_text = chunk, post_thread_ts = threadTs\<rparr> # posts,
                 failure))
      else ([\<lparr>post_channel = channel, post_text = chunk, post_thread_ts = threadTs\<rparr>],
            Some TypeError))"

definition postToSlack ::
  "platform \<Rightarrow> env \<Rightarrow> string \<Rightarrow> string \<Rightarrow> string \<Rightarrow> slack_post list \<times> error option" where
  "postToSlack P E channel text threadTs =
     (if \<not> present (SLACK_BOT_TOKEN E) then ([], None)
      else post_loop P channel threadTs (chunks text))"

section \<open>The conversation cache (slack-claude.js)\<close>

text \<open>
  \<open>const conversations = new Map()\<close>, from the key \<open>channel:thread\<close> to the history.
\<close>

type_synonym conversations = "(string \<times> chat_message list) list"

text \<open>
  \<^verbatim>\<open>
  function cleanupConversations() {
    const oneHourAgo = Date.now() - 3600000;
    for (const [key, messages] of conversations) {
      if (messages.length === 0) { conversations.delete(key); continue; }
      if (conversations.size > 100) { conversations.delete(key); }
    }
  }
  \<close>
  The iteration visits the entries in insertion order; deleting the entry being
  visited leaves the others to be visited. The first argument of the loop is what
  is left to visit, the second is the map. \<open>oneHourAgo\<close> is not used.
\<close>

fun cleanup_loop :: "(string \<times> chat_message list) list \<Rightarrow> conversations \<Rightarrow> conversations" where
  "cleanup_loop [] conversations = conversations"
| "cleanup_loop ((key, messages) # rest) conversations =
     (if length messages = 0 then cleanup_loop rest (Map_delete key conversations)
      else if length conversations > 100 then cleanup_loop rest (Map_delete key conversations)
      else cleanup_loop rest conversations)"

definition cleanupConversations :: "conversations \<Rightarrow> conversations" where
  "cleanupConversations conversations = cleanup_loop conversations conversations"

text \<open>
  The part of \<open>handler\<close> that keeps the history, from the cleaned \<open>text\<close> of the
  event and its \<open>contextKey\<close>:
  \<^verbatim>\<open>
  const history = conversations.get(contextKey) || [];
  history.push({ role: 'user', content: text });
  if (history.length > 20) { history.splice(0, history.length - 20); }
  const response = await callClaude(history);
  history.push({ role: 'assistant', content: response });
  conversations.set(contextKey, history);
  cleanupConversations();
  await postToSlack(channel, response, threadTs);
  \<close>
  \<open>callClaude\<close> is the call to the LLM: a reply, or the error it throws (the
  \<open>fetch\<close> rejected, or the answer had no \<open>content[0]\<close>), which the \<open>catch\<close> of
  the handler logs. \<open>history\<close> is the array the map holds under a key that is
  present, so in that case \<open>push\<close> and \<open>splice\<close> have changed the stored history
  already when \<open>callClaude\<close> throws; under a new key nothing has been stored then.
  The result is the map afterwards, and the history given to the LLM with its answer.
  \<open>history_of\<close> is \<open>conversations.get(contextKey) || []\<close>.
\<close>

definition history_of :: "conversations \<Rightarrow> string \<Rightarrow> chat_message list" where
  "history_of conversations contextKey =
     (case map_of conversations contextKey of None \<Rightarrow> [] | Some h \<Rightarrow> h)"

definition converse ::
  "(chat_message list \<Rightarrow> error + string) \<Rightarrow> conversations \<Rightarrow> string \<Rightarrow> string
     \<Rightarrow> conversations \<times> chat_message list \<times> (error + string)" where
  "converse callClaude conversations contextKey text =
     (let history0 = history_of conversations contextKey;
          history1 = history0 @ [\<lparr>role = ''user'', content = text\<rparr>];
          history2 = (if length history1 > 20
                      then drop (length history1 - 20) history1 else history1)
      in case callClaude history2 of
           Inl e \<Rightarrow>
             ((case map_of conversations contextKey of
                 None \<Rightarrow> conversations
               | Some h \<Rightarrow> Map_set contextKey history2 conversations),
              history2, Inl e)
         | Inr response \<Rightarrow>
             (cleanupConversations
                (Map_set contextKey (history2 @ [\<lparr>role = ''assistant'', content = response\<rparr>])
                   conversations),
              history2, Inr response))"

text \<open>
  Several messages handled one after the other under one key: the map afterwards,
  and every entry those messages appended to the history the map holds under the
  key, in the order of the pushes: the user's entry and the reply when the LLM
  answered, the user's entry alone when the call threw under a key that is
  present, and nothing when it threw under a new key, the array pushed to being
  dropped then.
\<close>

fun converse_all ::
  "(chat_message list \<Rightarrow> error + string) \<Rightarrow> conversations \<Rightarrow> string \<Rightarrow> string list
     \<Rightarrow> conversations \<times> chat_message list" where
  "converse_all callClaude conversations contextKey [] = (conversations, [])"
| "converse_all callClaude conversations contextKey (text # texts) =
     (case converse callClaude conversations contextKey text of
        (conversations', given, result) \<Rightarrow>
          (case converse_all callClaude conversations' contextKey texts of
             (final, pushed) \<Rightarrow>
               (final,
                (case result of
                   Inr response \<Rightarrow>
                     [\<lparr>role = ''user'', content = text\<rparr>,
                      \<lparr>role = ''assistant'', content = response\<rparr>]
                 | Inl e \<Rightarrow>
                     (case map_of conversations contextKey of
                        None \<Rightarrow> []
                      | Some h \<Rightarrow> [\<lparr>role = ''user'', content = text\<rparr>]))
                @ pushed)))"

text \<open>
  What holds of the map between two requests: the keys are distinct, as in any
  \<open>Map\<close>, there are at most 100 of them, and no stored history is empty.
\<close>

definition cacheInvariant :: "conversations \<Rightarrow> bool" where
  "cacheInvariant conversations =
     (distinct (map fst conversations) \<and> length conversations \<le> 100 \<and>
      list_all (\<lambda>e. snd e \<noteq> []) conversations)"

section \<open>Grouping error reports (report-error.js)\<close>

text \<open>
  \<^verbatim>\<open>
  function groupErrors(errors) {
    const groups = {};
    for (const err of errors) {
      const key = `${err.type}:${err.message}`;
      if (!groups[key]) { groups[key] = { ...err, count: 1 }; }
      else { groups[key].count++; }
    }
    return Object.values(groups);
  }
  \<close>
  A key holds a colon, so it is neither an array index nor a name that
  \<open>Object.prototype\<close> provides: \<open>groups[key]\<close> is the own property or \<open>undefined\<close>,
  and \<open>Object.values\<close> lists the groups in the order they were made.
\<close>

definition groupKey :: "'a report_scheme \<Rightarrow> string" where
  "groupKey err = errType err @ '':'' @ errMessage err"

fun groupErrors_loop ::
  "report list \<Rightarrow> (string \<times> error_group) list \<Rightarrow> (string \<times> error_group) list" where
  "groupErrors_loop [] groups = groups"
| "groupErrors_loop (err # errors) groups =
     (case map_of groups (groupKey err) of
        None \<Rightarrow>
          groupErrors_loop errors
            (Map_set (groupKey err) (report.extend err (error_group.fields 1)) groups)
      | Some g \<Rightarrow>
          groupErrors_loop errors (Map_set (groupKey err) (g\<lparr>count := count g + 1\<rparr>) groups))"

definition groupErrors :: "report list \<Rightarrow> error_group list" where
  "groupErrors errors = map snd (groupErrors_loop errors [])"

text \<open>
  What the loop keeps: the keys of the groups are distinct, each group sits under
  the key of its own type and message, and its count is the number of reports of
  that key seen so far.
\<close>

definition keyed :: "(string \<times> error_group) list \<Rightarrow> bool" where
  "keyed groups = (distinct (map fst groups) \<and> list_all (\<lambda>e. groupKey (snd e) = fst e) groups)"

section \<open>Choosing the message builder (slack-notify)\<close>

text \<open>
  \<^verbatim>\<open>
  function buildMessage(type, data) {
    const builders = { bug: buildBugMessage, feature: buildFeatureMessage,
      deployment: buildDeploymentMessage, digest: buildDigestMessage,
      incident: buildIncidentMessage, pr: buildPRMessage };
    const builder = builders[type];
    if (!builder) { return { text: `[${type}] ${JSON.stringify(data)}` }; }
    return builder(data);
  }
  \<close>
  \<open>builders\<close> is an object literal, so \<open>builders[type]\<close> is an own property, or
  what \<open>Object.prototype\<close> provides under that name, or \<open>undefined\<close>. The file is
  a module, so \<open>builder(data)\<close> calls with \<open>this\<close> undefined:
  \<^item> \<open>__proto__\<close> gives \<open>Object.prototype\<close> itself, which is truthy and not a
    function, and the call throws a TypeError;
  \<^item> \<open>constructor\<close> is \<open>Object\<close>, and \<open>Object(data)\<close> is a new empty object for
    \<open>undefined\<close> and \<open>null\<close> and \<open>data\<close> as an object otherwise;
  \<^item> \<open>toString\<close> returns \<open>[object Undefined]\<close>;
  \<^item> \<open>isPrototypeOf\<close> returns \<open>false\<close> for a \<open>data\<close> that is not an object and
    throws a TypeError otherwise;
  \<^item> the other eight throw a TypeError, having no \<open>this\<close> to work on.
\<close>

definition throwingPrototypeNames :: "string list" where
  "throwingPrototypeNames =
     [''valueOf'', ''toLocaleString'', ''hasOwnProperty'', ''propertyIsEnumerable'',
      ''__defineGetter__'', ''__defineSetter__'', ''__lookupGetter__'', ''__lookupSetter__'']"

fun isObject :: "json \<Rightarrow> bool" where
  "isObject (JArr xs) = True"
| "isObject (JObj kvs) = True"
| "isObject v = False"

definition buildMessage :: "platform \<Rightarrow> builders \<Rightarrow> string \<Rightarrow> json \<Rightarrow> error + json" where
  "buildMessage P B type data =
     (if type = ''bug'' then buildBugMessage B data
      else if type = ''feature'' then buildFeatureMessage B data
      else if type = ''deployment'' then buildDeploymentMessage B data
      else if type = ''digest'' then buildDigestMessage B data
      else if type = ''incident'' then buildIncidentMessage B data
      else if type = ''pr'' then buildPRMessage B data
      else if type = ''__proto__'' then Inl TypeError
      else if type = ''constructor''
        then Inr (if data = JUndefined \<or> data = JNull then JObj [] else data)
      else if type = ''toString'' then Inr (JStr ''[object Undefined]'')
      else if type = ''isPrototypeOf''
        then (if isObject data then Inl TypeError else Inr (JBool False))
      else if type \<in> set throwingPrototypeNames then Inl TypeError
      else Inr (JObj [(''text'', JStr (''['' @ type @ ''] '' @ jsonStringify P data))]))"

section \<open>The handlers of slack-commands.js and slack-actions.js\<close>

definition respond :: "nat \<Rightarrow> json \<Rightarrow> outcome" where
  "respond status reply = \<lparr>sent = Some (status, reply), fetched = [], uncaught = None\<rparr>"

definition threw :: "error \<Rightarrow> outcome" where
  "threw e = \<lparr>sent = None, fetched = [], uncaught = Some e\<rparr>"

text \<open>
  \<open>await fetch(url, { method: 'POST', ..., body: JSON.stringify(message) })\<close>: the
  call, and the error when it is rejected.
\<close>

definition deliver :: "platform \<Rightarrow> json \<Rightarrow> json \<Rightarrow> call list \<times> error option" where
  "deliver P url message =
     ([\<lparr>call_target = url, call_payload = message\<rparr>],
      if fetchResolves P url message then None else Some TypeError)"

text \<open>
  \<open>process.env.SLACK_SIGNING_SECRET && !verifySlackSignature(req)\<close>, the guard of
  both handlers: with no secret configured the signature is not looked at. The
  result is whether the request goes on, or the error \<open>verifySlackSignature\<close> threw.
\<close>

definition signatureGuard :: "platform \<Rightarrow> int \<Rightarrow> env \<Rightarrow> request \<Rightarrow> error + bool" where
  "signatureGuard P dateNow E req =
     (if present (SLACK_SIGNING_SECRET E) then verifySlackSignature P dateNow E req
      else Inr True)"

definition backtick :: string where
  "backtick = [CHR 0x60]"

text \<open>The \<open>switch (command)\<close> of slack-commands.js.\<close>

definition dispatchCommand ::
  "platform \<Rightarrow> command_handlers \<Rightarrow> json \<Rightarrow> json \<Rightarrow> json \<Rightarrow> handled" where
  "dispatchCommand P H command text user_name =
     (if command = JStr ''/bug'' then handleBugCommand H text user_name
      else if command = JStr ''/feature'' then handleFeatureCommand H text user_name
      else if command = JStr ''/ask-claude'' then handleAskClaudeCommand H text user_name
      else if command = JStr ''/bug-status'' then handleBugStatusCommand H text
      else if command = JStr ''/deploy'' then handleDeployCommand H text user_name
      else if command = JStr ''/approve-pr'' then handleApprovePRCommand H text user_name
      else ([], Inr (JObj
        [(''response_type'', JStr ''ephemeral''),
         (''text'', JStr (''Unknown command: '' @ backtick @ interpolate P command @ backtick
            @ ''. Available commands: /bug, /feature, /ask-claude, /bug-status, /deploy, /approve-pr''))])))"

text \<open>
  \<^verbatim>\<open>
  export default async function handler(req, res) {
    if (req.method !== 'POST') { return res.status(405).json({ error: 'Method not allowed' }); }
    if (process.env.SLACK_SIGNING_SECRET && !verifySlackSignature(req)) {
      return res.status(401).json({ error: 'Invalid signature' });
    }
    const { command, text, user_name, response_url, trigger_id } = req.body;
    res.status(200).json({ response_type: 'ephemeral',
                           text: `Processing your \`${command}\` command...` });
    try {
      let result;
      switch (command) { ... }
      if (response_url) { await fetch(response_url, { ..., body: JSON.stringify(result) }); }
    } catch (error) {
      if (response_url) {
        await fetch(response_url, { ..., body: JSON.stringify({ response_type: 'ephemeral',
          text: `Error processing command: ${error.message}` }) });
      }
    }
  }
  \<close>
\<close>

definition handler_commands ::
  "platform \<Rightarrow> int \<Rightarrow> env \<Rightarrow> command_handlers \<Rightarrow> request \<Rightarrow> outcome" where
  "handler_commands P dateNow E H req =
     (if httpMethod req \<noteq> ''POST''
      then respond 405 (JObj [(''error'', JStr ''Method not allowed'')])
      else
        case signatureGuard P dateNow E req of
          Inl e \<Rightarrow> threw e
        | Inr False \<Rightarrow> respond 401 (JObj [(''error'', JStr ''Invalid signature'')])
        | Inr True \<Rightarrow>
            (case property (body req) ''command'' of
               Inl e \<Rightarrow> threw e
             | Inr command \<Rightarrow>
                 let text = field (body req) ''text'';
                     user_name = field (body req) ''user_name'';
                     response_url = field (body req) ''response_url'';
                     ack = (200, JObj
                       [(''response_type'', JStr ''ephemeral''),
                        (''text'', JStr (''Processing your '' @ backtick @ interpolate P command
                           @ backtick @ '' command...''))]);
                     tried =
                       (case dispatchCommand P H command text user_name of
                          (calls, Inl e) \<Rightarrow> (calls, Some e)
                        | (calls, Inr result) \<Rightarrow>
                            if truthy response_url
                            then (case deliver P response_url result of
                                    (posted, failure) \<Rightarrow> (calls @ posted, failure))
                            else (calls, None))
                 in case tried of
                      (calls, None) \<Rightarrow> \<lparr>sent = Some ack, fetched = calls, uncaught = None\<rparr>
                    | (calls, Some e) \<Rightarrow>
                        if truthy response_url
                        then (case deliver P response_url (JObj
                                [(''response_type'', JStr ''ephemeral''),
                                 (''text'', JStr (''Error processing command: ''
                                    @ errorMessage P e))]) of
                                (posted, failure) \<Rightarrow>
                                  \<lparr>sent = Some ack, fetched = calls @ posted,
                                   uncaught = failure\<rparr>)
                        else \<lparr>sent = Some ack, fetched = calls, uncaught = None\<rparr>))"

text \<open>
  The \<open>switch (action.action_id)\<close> of slack-actions.js. The text of the
  \<open>cancel_deploy\<close> reply starts with the four bytes the source file has there.
\<close>

definition cancelledText :: string where
  "cancelledText = [CHR 0xC3, CHR 0xA2, CHR 0xC5, CHR 0x92] @ '' Deployment cancelled.''"

definition dispatchAction ::
  "platform \<Rightarrow> action_handlers \<Rightarrow> json \<Rightarrow> json \<Rightarrow> handled" where
  "dispatchAction P H action user =
     (let action_id = field action ''action_id''; v = field action ''value'' in
      if action_id = JStr ''trigger_ai_analysis'' then handleTriggerAIAnalysis H v
      else if action_id = JStr ''approve_merge_pr'' then handleApproveMergePR H v user
      else if action_id = JStr ''reject_pr'' then handleRejectPR H v user
      else if action_id = JStr ''confirm_deploy'' then handleConfirmDeploy H v user
      else if action_id = JStr ''cancel_deploy''
        then ([], Inr (JObj [(''replace_original'', JBool True), (''text'', JStr cancelledText)]))
      else if action_id = JStr ''acknowledge_incident'' then handleAcknowledgeIncident H v user
      else if action_id = JStr ''add_to_roadmap'' then handleAddToRoadmap H v
      else ([], Inr (JObj [(''text'', JStr (''Unknown action: '' @ interpolate P action_id))])))"

text \<open>
  \<^verbatim>\<open>
  payload = typeof req.body === 'string' ? JSON.parse(req.body)
          : req.body.payload ? JSON.parse(req.body.payload) : req.body;
  \<close>
  inside \<open>try { ... } catch { return res.status(400).json({ error: 'Invalid payload' }); }\<close>.
\<close>

definition parsePayload :: "platform \<Rightarrow> request \<Rightarrow> error + json" where
  "parsePayload P req =
     (case body req of
        JStr s \<Rightarrow> (case jsonParse P s of None \<Rightarrow> Inl SyntaxError | Some v \<Rightarrow> Inr v)
      | b \<Rightarrow>
          (case property b ''payload'' of
             Inl e \<Rightarrow> Inl e
           | Inr p \<Rightarrow>
               if truthy p
               then (case jsonParse P (interpolate P p) of
                       None \<Rightarrow> Inl SyntaxError | Some v \<Rightarrow> Inr v)
               else Inr b))"

text \<open>
  \<^verbatim>\<open>
  export default async function handler(req, res) {
    if (req.method !== 'POST') { return res.status(405).json({ error: 'Method not allowed' }); }
    let payload;
    try { payload = ...; } catch { return res.status(400).json({ error: 'Invalid payload' }); }
    if (process.env.SLACK_SIGNING_SECRET && !verifySlackSignature(req)) {
      return res.status(401).json({ error: 'Invalid signature' });
    }
    res.status(200).end();
    const responseUrl = payload.response_url;
    const action = payload.actions && payload.actions[0];
    if (!action) return;
    try {
      let result;
      switch (action.action_id) { ... }
      if (responseUrl && result) { await fetch(responseUrl, { ..., body: JSON.stringify(result) }); }
    } catch (error) {
      if (responseUrl) {
        await fetch(responseUrl, { ..., body: JSON.stringify({ text: `Error: ${error.message}` }) });
      }
    }
  }
  \<close>
\<close>

definition handler_actions ::
  "platform \<Rightarrow> int \<Rightarrow> env \<Rightarrow> action_handlers \<Rightarrow> request \<Rightarrow> outcome" where
  "handler_actions P dateNow E H req =
     (if httpMethod req \<noteq> ''POST''
      then respond 405 (JObj [(''error'', JStr ''Method not allowed'')])
      else
        case parsePayload P req of
          Inl e \<Rightarrow> respond 400 (JObj [(''error'', JStr ''Invalid payload'')])
        | Inr payload \<Rightarrow>
            (case signatureGuard P dateNow E req of
               Inl e \<Rightarrow> threw e
             | Inr False \<Rightarrow> respond 401 (JObj [(''error'', JStr ''Invalid signature'')])
             | Inr True \<Rightarrow>
                 (case property payload ''response_url'' of
                    Inl e \<Rightarrow> \<lparr>sent = Some (200, JUndefined), fetched = [], uncaught = Some e\<rparr>
                  | Inr responseUrl \<Rightarrow>
                      let actions = field payload ''actions'';
                          action = (if truthy actions then element0 actions else actions);
                          ack = (200, JUndefined)
                      in if \<not> truthy action
                         then \<lparr>sent = Some ack, fetched = [], uncaught = None\<rparr>
                         else
                           let tried =
                             (case dispatchAction P H action (field payload ''user'') of
                                (calls, Inl e) \<Rightarrow> (calls, Some e)
                              | (calls, Inr result) \<Rightarrow>
                                  if truthy responseUrl \<and> truthy result
                                  then (case deliver P responseUrl result of
                                          (posted, failure) \<Rightarrow> (calls @ posted, failure))
                                  else (calls, None))
                           in case tried of
                                (calls, None) \<Rightarrow>
                                  \<lparr>sent = Some ack, fetched = calls, uncaught = None\<rparr>
                              | (calls, Some e) \<Rightarrow>
                                  if truthy responseUrl
                                  then (case deliver P responseUrl (JObj
                                          [(''text'', JStr (''Error: '' @ errorMessage P e))]) of
                                          (posted, failure) \<Rightarrow>
                                            \<lparr>sent = Some ack, fetched = calls @ posted,
                                             uncaught = failure\<rparr>)
                                  else \<lparr>sent = Some ack, fetched = calls, uncaught = None\<rparr>)))"

section \<open>A sample platform\<close>

text \<open>
  Concrete stand-ins for the parameters, to run the definitions on explicit
  requests: a digest of 64 characters that depends on the message, a decimal
  \<open>parseInt\<close>, a serialiser that lists the keys of an object, a network that
  answers, and handlers that make no call and return \<open>null\<close>.
\<close>

definition sampleHmac :: "string \<Rightarrow> string \<Rightarrow> string" where
  "sampleHmac key msg = take 64 (rev msg @ key @ replicate 64 CHR ''0'')"

definition sampleParseInt :: "string \<Rightarrow> int option" where
  "sampleParseInt s =
     (if s \<noteq> [] \<and> list_all (\<lambda>c. 48 \<le> (of_char c :: nat) \<and> (of_char c :: nat) \<le> 57) s
      then Some (foldl (\<lambda>n c. 10 * n + (int (of_char c) - 48)) 0 s)
      else None)"

definition sampleStringify :: "json \<Rightarrow> string" where
  "sampleStringify v =
     (case v of JObj kvs \<Rightarrow> ''{'' @ concat (map fst kvs) @ ''}'' | _ \<Rightarrow> ''null'')"

definition samplePlatform :: platform where
  "samplePlatform =
     \<lparr>hmacSha256Hex = sampleHmac, parseInt = sampleParseInt,
      jsonStringify = sampleStringify, jsonParse = (\<lambda>s. None),
      toString = (\<lambda>v. ''[object Object]''), errorMessage = (\<lambda>e. ''failed''),
      fetchResolves = (\<lambda>url message. True)\<rparr>"

definition sampleCommands :: command_handlers where
  "sampleCommands =
     \<lparr>handleBugCommand = (\<lambda>t u. ([], Inr JNull)),
      handleFeatureCommand = (\<lambda>t u. ([], Inr JNull)),
      handleAskClaudeCommand = (\<lambda>t u. ([], Inr JNull)),
      handleBugStatusCommand = (\<lambda>t. ([], Inr JNull)),
      handleDeployCommand = (\<lambda>t u. ([], Inr JNull)),
      handleApprovePRCommand = (\<lambda>t u. ([], Inr JNull))\<rparr>"

definition sampleActions :: action_handlers where
  "sampleActions =
     \<lparr>handleTriggerAIAnalysis = (\<lambda>v. ([], Inr JNull)),
      handleApproveMergePR = (\<lambda>v u. ([], Inr JNull)),
      handleRejectPR = (\<lambda>v u. ([], Inr JNull)),
      handleConfirmDeploy = (\<lambda>v u. ([], Inr JNull)),
      handleAcknowledgeIncident = (\<lambda>v u. ([], Inr JNull)),
      handleAddToRoadmap = (\<lambda>v. ([], Inr JNull))\<rparr>"

text \<open>Explicit inputs.\<close>

definition slackEnv :: env where
  "slackEnv =
     \<lparr>SLACK_SIGNING_SECRET = Some ''8f742231b10e8888abcd99yyyzzz85a5'',
      SLACK_BOT_TOKEN = Some ''xoxb-1''\<rparr>"

definition openEnv :: env where
  "openEnv = \<lparr>SLACK_SIGNING_SECRET = None, SLACK_BOT_TOKEN = None\<rparr>"

definition unsignedRequest :: request where
  "unsignedRequest =
     \<lparr>httpMethod = ''POST'', headers = Map.empty,
      body = JObj [(''command'', JStr ''/frobnicate''),
                   (''response_url'', JStr ''https://hooks.slack.com/commands/1'')]\<rparr>"

definition slashCommandRequest :: request where
  "slashCommandRequest =
     \<lparr>httpMethod = ''POST'',
      headers = [''x-slack-request-timestamp'' \<mapsto> ''1700000000'',
                 ''x-slack-signature'' \<mapsto>
                    ''v0='' @ sampleHmac ''8f742231b10e8888abcd99yyyzzz85a5''
                      (''v0:1700000000:'' @ ''command=%2Fbug&text=crash'')],
      body = JObj [(''command'', JStr ''/bug''), (''text'', JStr ''crash'')]\<rparr>"

definition thirteenMessages :: "string list" where
  "thirteenMessages =
     [''m1'', ''m2'', ''m3'', ''m4'', ''m5'', ''m6'', ''m7'', ''m8'', ''m9'', ''m10'', ''m11'',
      ''m12'', ''m13'']"

text \<open>An LLM call that answers but for the message \<open>m13\<close>, on which it throws.\<close>

definition unansweredAt13 :: "chat_message list \<Rightarrow> error + string" where
  "unansweredAt13 history =
     (if content (last history) = ''m13'' then Inl (Thrown ''fetch failed'') else Inr ''ok'')"

text \<open>A map of 101 keys, each with a history of one entry.\<close>

definition crowded :: conversations where
  "crowded =
     map (\<lambda>i. (replicate i CHR ''k'', [\<lparr>role = ''user'', content = ''hi''\<rparr>])) [0..<101]"

definition longReply :: string where
  "longReply = replicate 2000 CHR ''a'' @ newline # replicate 2000 CHR ''b''"

section \<open>Signature verification: results\<close>

lemma verifySlackSignature_present:
  assumes "headers req ''x-slack-request-timestamp'' = Some ts" "ts \<noteq> []"
    and "headers req ''x-slack-signature'' = Some s" "s \<noteq> []"
    and "SLACK_SIGNING_SECRET E = Some secret" "secret \<noteq> []"
  shows "verifySlackSignature P dateNow E req =
     (if (case parseInt P ts of None \<Rightarrow> False | Some t \<Rightarrow> \<bar>dateNow div 1000 - t\<bar> > 300)
      then Inr False
      else timingSafeEqual
             (''v0='' @ hmacSha256Hex P secret (''v0:'' @ ts @ '':'' @ bodyText P req)) s)"
  using assms by (simp add: verifySlackSignature_def Let_def)

text \<open>
  What the function does with a signature made over the text it works on,
  \<open>bodyText\<close>: it accepts it inside the window of 300 seconds, it rejects it with
  one byte changed, and it rejects it when 301 seconds old. \<open>bodyText\<close> is the raw
  body when the platform hands \<open>req.body\<close> over as a string.
\<close>

lemma verifySlackSignature_signed:
  assumes ts: "headers req ''x-slack-request-timestamp'' = Some ts" "ts \<noteq> []"
    and secret: "SLACK_SIGNING_SECRET E = Some secret" "secret \<noteq> []"
    and t: "parseInt P ts = Some t"
  shows
    "\<bar>dateNow div 1000 - t\<bar> \<le> 300 \<longrightarrow>
       verifySlackSignature P dateNow E
         (req\<lparr>headers := (headers req)(''x-slack-signature'' \<mapsto>
            ''v0='' @ hmacSha256Hex P secret (''v0:'' @ ts @ '':'' @ bodyText P req))\<rparr>) = Inr True"
  and
    "i < length (''v0='' @ hmacSha256Hex P secret (''v0:'' @ ts @ '':'' @ bodyText P req)) \<and>
     b \<noteq> (''v0='' @ hmacSha256Hex P secret (''v0:'' @ ts @ '':'' @ bodyText P req)) ! i \<longrightarrow>
       verifySlackSignature P dateNow E
         (req\<lparr>headers := (headers req)(''x-slack-signature'' \<mapsto>
            (''v0='' @ hmacSha256Hex P secret (''v0:'' @ ts @ '':'' @ bodyText P req))[i := b])\<rparr>)
       = Inr False"
  and
    "dateNow div 1000 - t = 301 \<longrightarrow>
       verifySlackSignature P dateNow E
         (req\<lparr>headers := (headers req)(''x-slack-signature'' \<mapsto>
            ''v0='' @ hmacSha256Hex P secret (''v0:'' @ ts @ '':'' @ bodyText P req))\<rparr>) = Inr False"
proof -
  show "\<bar>dateNow div 1000 - t\<bar> \<le> 300 \<longrightarrow>
       verifySlackSignature P dateNow E
         (req\<lparr>headers := (headers req)(''x-slack-signature'' \<mapsto>
            ''v0='' @ hmacSha256Hex P secret (''v0:'' @ ts @ '':'' @ bodyText P req))\<rparr>) = Inr True"
    using assms by (simp add: verifySlackSignature_def timingSafeEqual_def bodyText_def Let_def)
  show "dateNow div 1000 - t = 301 \<longrightarrow>
       verifySlackSignature P dateNow E
         (req\<lparr>headers := (headers req)(''x-slack-signature'' \<mapsto>
            ''v0='' @ hmacSha256Hex P secret (''v0:'' @ ts @ '':'' @ bodyText P req))\<rparr>) = Inr False"
    using assms by (simp add: verifySlackSignature_def timingSafeEqual_def bodyText_def Let_def)
  define sg where "sg = ''v0='' @ hmacSha256Hex P secret (''v0:'' @ ts @ '':'' @ bodyText P req)"
  have neq: "i < length sg \<Longrightarrow> b \<noteq> sg ! i \<Longrightarrow> sg [i := b] \<noteq> sg"
    by (metis nth_list_update_eq)
  have ne: "i < length sg \<Longrightarrow> sg [i := b] \<noteq> []"
    by (metis length_list_update list.size(3) not_less_zero)
  have "i < length sg \<and> b \<noteq> sg ! i \<longrightarrow>
       verifySlackSignature P dateNow E
         (req\<lparr>headers := (headers req)(''x-slack-signature'' \<mapsto> sg [i := b])\<rparr>) = Inr False"
  proof
    assume a: "i < length sg \<and> b \<noteq> sg ! i"
    with neq ne have n1: "sg [i := b] \<noteq> sg" and n2: "sg [i := b] \<noteq> []" by blast+
    have same: "bodyText P (req\<lparr>headers := (headers req)(''x-slack-signature'' \<mapsto> sg [i := b])\<rparr>)
       = bodyText P req" by (simp add: bodyText_def)
    have tse: "timingSafeEqual sg (sg [i := b]) = Inr False"
      using n1 by (auto simp: timingSafeEqual_def)
    have "verifySlackSignature P dateNow E
         (req\<lparr>headers := (headers req)(''x-slack-signature'' \<mapsto> sg [i := b])\<rparr>) =
       (if (case parseInt P ts of None \<Rightarrow> False | Some t \<Rightarrow> \<bar>dateNow div 1000 - t\<bar> > 300)
        then Inr False
        else timingSafeEqual
          (''v0='' @ hmacSha256Hex P secret (''v0:'' @ ts @ '':'' @
             bodyText P (req\<lparr>headers := (headers req)(''x-slack-signature'' \<mapsto> sg [i := b])\<rparr>)))
          (sg [i := b]))"
      by (rule verifySlackSignature_present) (use ts secret n2 in simp_all)
    then show "verifySlackSignature P dateNow E
         (req\<lparr>headers := (headers req)(''x-slack-signature'' \<mapsto> sg [i := b])\<rparr>) = Inr False"
      unfolding same sg_def [symmetric] using tse by simp
  qed
  then show "i < length (''v0='' @ hmacSha256Hex P secret (''v0:'' @ ts @ '':'' @ bodyText P req)) \<and>
     b \<noteq> (''v0='' @ hmacSha256Hex P secret (''v0:'' @ ts @ '':'' @ bodyText P req)) ! i \<longrightarrow>
       verifySlackSignature P dateNow E
         (req\<lparr>headers := (headers req)(''x-slack-signature'' \<mapsto>
            (''v0='' @ hmacSha256Hex P secret (''v0:'' @ ts @ '':'' @ bodyText P req))[i := b])\<rparr>)
       = Inr False"
    unfolding sg_def .
qed

text \<open>
  Claim C1. A request signed with the correct secret over \<open>v0:\<close> + timestamp + \<open>:\<close> +
  raw body, with a timestamp within 300 seconds of now, verifies true; with one
  byte of the signature changed it verifies false, and so it does when 301 seconds
  old.

  The function has no raw body to work on: it signs over \<open>bodyText\<close>, which is
  \<open>req.body\<close> when that is a string and \<open>JSON.stringify(req.body)\<close> when the platform
  has parsed the body, as it has for the handlers to read \<open>req.body.command\<close>. So a
  request that carries the signature of its raw body and reaches the function with
  a parsed body is rejected, as soon as the digest of the re-serialised body is not
  the digest of the raw body (the two digests being of one length, 64 characters
  for HMAC-SHA256): the first part of the claim fails there.
\<close>

theorem verifySlackSignature_parsed_body:
  assumes "headers req ''x-slack-request-timestamp'' = Some ts" "ts \<noteq> []"
    and "SLACK_SIGNING_SECRET E = Some secret" "secret \<noteq> []"
    and "headers req ''x-slack-signature'' =
           Some (''v0='' @ hmacSha256Hex P secret (''v0:'' @ ts @ '':'' @ rawBody))"
    and "body req = JObj props"
    and "length (hmacSha256Hex P secret (''v0:'' @ ts @ '':'' @ jsonStringify P (JObj props)))
         = length (hmacSha256Hex P secret (''v0:'' @ ts @ '':'' @ rawBody))"
    and "hmacSha256Hex P secret (''v0:'' @ ts @ '':'' @ jsonStringify P (JObj props))
         \<noteq> hmacSha256Hex P secret (''v0:'' @ ts @ '':'' @ rawBody)"
  shows "verifySlackSignature P dateNow E req = Inr False"
  using assms
  by (simp add: verifySlackSignature_def timingSafeEqual_def bodyText_def Let_def)

theorem verifySlackSignature_parsed_body_witness:
  "sampleParseInt ''1700000000'' = Some 1700000000 \<and>
   \<bar>1700000123456 div 1000 - (1700000000::int)\<bar> \<le> 300 \<and>
   headers slashCommandRequest ''x-slack-signature'' =
     Some (''v0='' @ hmacSha256Hex samplePlatform ''8f742231b10e8888abcd99yyyzzz85a5''
             (''v0:'' @ ''1700000000'' @ '':'' @ ''command=%2Fbug&text=crash'')) \<and>
   verifySlackSignature samplePlatform 1700000123456 slackEnv slashCommandRequest = Inr False"
proof -
  have "verifySlackSignature samplePlatform 1700000123456 slackEnv slashCommandRequest = Inr False"
    by (rule verifySlackSignature_parsed_body
          [where ts = "''1700000000''" and secret = "''8f742231b10e8888abcd99yyyzzz85a5''"
             and rawBody = "''command=%2Fbug&text=crash''"
             and props = "[(''command'', JStr ''/bug''), (''text'', JStr ''crash'')]"])
       (simp_all add: slackEnv_def slashCommandRequest_def samplePlatform_def sampleHmac_def
          sampleStringify_def)
  then show ?thesis
    by (simp add: sampleParseInt_def slashCommandRequest_def samplePlatform_def)
qed

section \<open>The handlers and a failed verification\<close>

lemma signatureGuard_false:
  "present (SLACK_SIGNING_SECRET E) \<Longrightarrow> verifySlackSignature P dateNow E req = Inr False
   \<Longrightarrow> signatureGuard P dateNow E req = Inr False"
  by (simp add: signatureGuard_def)

text \<open>
  Claim C2, as stated: on every inbound event on which signature verification
  returns false the handler responds 401 and does nothing else. With no signing
  secret configured \<open>verifySlackSignature\<close> returns false on every request, and the
  handler, whose guard then skips it, acknowledges with 200 and posts its answer to
  the callback URL.
\<close>

theorem handler_without_secret_counterexample:
  "verifySlackSignature samplePlatform 1700000123456 openEnv unsignedRequest = Inr False \<and>
   sent (handler_commands samplePlatform 1700000123456 openEnv sampleCommands unsignedRequest)
     = Some (200, JObj [(''response_type'', JStr ''ephemeral''),
         (''text'', JStr (''Processing your '' @ backtick @ ''/frobnicate'' @ backtick
            @ '' command...''))]) \<and>
   map call_target
     (fetched (handler_commands samplePlatform 1700000123456 openEnv sampleCommands
        unsignedRequest))
     = [JStr ''https://hooks.slack.com/commands/1'']"
  by (simp add: verifySlackSignature_def handler_commands_def signatureGuard_def openEnv_def
       unsignedRequest_def present_def field_def dispatchCommand_def deliver_def
       samplePlatform_def interpolate_def Let_def)

text \<open>
  Claim C2, amended: on every POST request handled while a signing secret is
  configured and on which \<open>verifySlackSignature\<close> returns false, the slash-command
  handler responds 401 and does nothing else: no outbound call, nothing posted to
  the callback URL. The button-action handler does the same once the payload has
  parsed; a payload that does not parse gets 400 before the signature is looked
  at, with no outbound call either.
\<close>

theorem handlers_reject_failed_signature:
  assumes "httpMethod req = ''POST''" and "present (SLACK_SIGNING_SECRET E)"
    and "verifySlackSignature P dateNow E req = Inr False"
  shows "handler_commands P dateNow E H req =
           \<lparr>sent = Some (401, JObj [(''error'', JStr ''Invalid signature'')]),
            fetched = [], uncaught = None\<rparr> \<and>
         handler_actions P dateNow E H' req =
           (case parsePayload P req of
              Inl e \<Rightarrow> \<lparr>sent = Some (400, JObj [(''error'', JStr ''Invalid payload'')]),
                         fetched = [], uncaught = None\<rparr>
            | Inr p \<Rightarrow> \<lparr>sent = Some (401, JObj [(''error'', JStr ''Invalid signature'')]),
                         fetched = [], uncaught = None\<rparr>)"
  using assms signatureGuard_false [OF assms(2,3)]
  by (simp add: handler_commands_def handler_actions_def respond_def split: sum.splits)

theorem handlers_reject_failed_signature_witness:
  "httpMethod unsignedRequest = ''POST'' \<and> present (SLACK_SIGNING_SECRET slackEnv) \<and>
   verifySlackSignature samplePlatform 1700000123456 slackEnv unsignedRequest = Inr False \<and>
   handler_commands samplePlatform 1700000123456 slackEnv sampleCommands unsignedRequest =
     \<lparr>sent = Some (401, JObj [(''error'', JStr ''Invalid signature'')]),
      fetched = [], uncaught = None\<rparr> \<and>
   handler_actions samplePlatform 1700000123456 slackEnv sampleActions unsignedRequest =
     \<lparr>sent = Some (401, JObj [(''error'', JStr ''Invalid signature'')]),
      fetched = [], uncaught = None\<rparr>"
proof -
  have h1: "httpMethod unsignedRequest = ''POST''" by (simp add: unsignedRequest_def)
  have h2: "present (SLACK_SIGNING_SECRET slackEnv)" by (simp add: slackEnv_def present_def)
  have h3: "verifySlackSignature samplePlatform 1700000123456 slackEnv unsignedRequest = Inr False"
    by (simp add: verifySlackSignature_def unsignedRequest_def)
  have p: "parsePayload samplePlatform unsignedRequest = Inr (body unsignedRequest)"
    by (simp add: parsePayload_def unsignedRequest_def)
  from handlers_reject_failed_signature [OF h1 h2 h3, of sampleCommands sampleActions]
  show ?thesis using h1 h2 h3 by (simp add: p)
qed

text \<open>
  Claim C3. \<open>verify\<close> is a total predicate: it returns a boolean and never raises,
  and it returns false rather than raising for a signature that does not match.

  \<open>crypto.timingSafeEqual\<close> throws when the two buffers differ in length, and the
  function hands it the signature header as it came. With a timestamp inside the
  window and the header \<open>v0\<close>, two bytes against the three and more of
  \<open>'v0=' + digest\<close> whatever the digest, the function raises a RangeError.
\<close>

theorem verifySlackSignature_raises:
  "verifySlackSignature (samplePlatform\<lparr>hmacSha256Hex := h\<rparr>) 1700000123456 slackEnv
     \<lparr>httpMethod = ''POST'',
      headers = [''x-slack-request-timestamp'' \<mapsto> ''1700000000'',
                 ''x-slack-signature'' \<mapsto> ''v0''],
      body = JStr ''command=%2Fbug''\<rparr> = Inl RangeError"
  by (simp add: verifySlackSignature_def timingSafeEqual_def bodyText_def Let_def
        slackEnv_def samplePlatform_def sampleParseInt_def)

text \<open>The parts of the claim that hold: the function fails closed.\<close>

lemma verifySlackSignature_fails_closed:
  "\<not> present (headers req ''x-slack-request-timestamp'') \<or>
   \<not> present (headers req ''x-slack-signature'') \<or>
   \<not> present (SLACK_SIGNING_SECRET E)
   \<Longrightarrow> verifySlackSignature P dateNow E req = Inr False"
  by (auto simp: verifySlackSignature_def present_def split: option.splits)

lemma verifySlackSignature_same_length:
  assumes "headers req ''x-slack-signature'' = Some s"
    and "SLACK_SIGNING_SECRET E = Some secret"
    and "headers req ''x-slack-request-timestamp'' = Some ts"
    and "length s = length (''v0='' @ hmacSha256Hex P secret (''v0:'' @ ts @ '':'' @ bodyText P req))"
  shows "verifySlackSignature P dateNow E req \<noteq> Inl e"
  using assms
  by (auto simp: verifySlackSignature_def timingSafeEqual_def Let_def split: option.splits)

text \<open>
  The handler does not catch it: it ends with the error and sends nothing, where
  the callers of a verification that failed are to respond 401.
\<close>

lemma handler_commands_raises:
  "handler_commands (samplePlatform\<lparr>hmacSha256Hex := h\<rparr>) 1700000123456 slackEnv H
     \<lparr>httpMethod = ''POST'',
      headers = [''x-slack-request-timestamp'' \<mapsto> ''1700000000'',
                 ''x-slack-signature'' \<mapsto> ''v0''],
      body = JStr ''command=%2Fbug''\<rparr> = \<lparr>sent = None, fetched = [], uncaught = Some RangeError\<rparr>"
  by (simp add: handler_commands_def signatureGuard_def present_def threw_def
        verifySlackSignature_def timingSafeEqual_def bodyText_def Let_def
        slackEnv_def samplePlatform_def sampleParseInt_def)

section \<open>The conversation cache: results\<close>

subsection \<open>The map operations\<close>

lemma Map_delete_mid:
  assumes "distinct (map fst (pre @ (k, v) # post))"
  shows "Map_delete k (pre @ (k, v) # post) = pre @ post"
proof -
  have "filter (\<lambda>e. fst e \<noteq> k) pre = pre"
    using assms by (force simp: filter_id_conv)
  moreover have "filter (\<lambda>e. fst e \<noteq> k) post = post"
    using assms by (force simp: filter_id_conv)
  ultimately show ?thesis by (simp add: Map_delete_def)
qed

lemma Map_delete_subseq: "subseq (Map_delete k m) m"
  by (simp add: Map_delete_def)

lemma Map_set_new: "k \<notin> fst ` set m \<Longrightarrow> Map_set k v m = m @ [(k, v)]"
  by (induction m) force+

lemma map_of_Map_set: "map_of (Map_set k v m) = (map_of m)(k \<mapsto> v)"
  by (induction m) auto

lemma keys_Map_set: "fst ` set (Map_set k v m) = insert k (fst ` set m)"
  by (induction m) force+

lemma length_Map_set_old: "k \<in> fst ` set m \<Longrightarrow> length (Map_set k v m) = length m"
  by (induction m) force+

lemma distinct_Map_set: "distinct (map fst m) \<Longrightarrow> distinct (map fst (Map_set k v m))"
  by (induction m) (auto simp: keys_Map_set)

lemma list_all_Map_set: "list_all Q m \<Longrightarrow> Q (k, v) \<Longrightarrow> list_all Q (Map_set k v m)"
  by (induction m) auto

subsection \<open>The maintenance pass\<close>

text \<open>
  The entries whose key is no longer to be visited are at most 100 all along the
  loop: a visit either deletes the entry or finds the map within the cap.
\<close>

lemma cleanup_loop_bound:
  "length (filter (\<lambda>e. fst e \<notin> fst ` set todo) cur) \<le> 100 \<Longrightarrow>
   length (cleanup_loop todo cur) \<le> 100"
proof (induction todo arbitrary: cur)
  case Nil
  then show ?case by simp
next
  case (Cons e rest)
  obtain key messages where e: "e = (key, messages)" by (cases e)
  have del: "filter (\<lambda>x. fst x \<notin> fst ` set rest) (Map_delete key cur)
             = filter (\<lambda>x. fst x \<notin> fst ` set (e # rest)) cur"
    unfolding Map_delete_def e by (induction cur) auto
  have keep: "length cur \<le> 100 \<Longrightarrow> length (filter (\<lambda>x. fst x \<notin> fst ` set rest) cur) \<le> 100"
    using length_filter_le [of "\<lambda>x. fst x \<notin> fst ` set rest" cur] by linarith
  show ?case
    using Cons.IH [of "Map_delete key cur"] Cons.IH [of cur] Cons.prems del keep
    by (auto simp: e)
qed

lemma cleanup_bound: "length (cleanupConversations c) \<le> 100"
  unfolding cleanupConversations_def by (rule cleanup_loop_bound) simp

lemma cleanup_loop_subseq: "subseq (cleanup_loop todo cur) cur"
proof (induction todo arbitrary: cur)
  case Nil
  then show ?case by simp
next
  case (Cons e rest)
  obtain key messages where e: "e = (key, messages)" by (cases e)
  have "subseq (cleanup_loop rest (Map_delete key cur)) cur"
    using Cons.IH [of "Map_delete key cur"] Map_delete_subseq [of key cur]
    by (rule subseq_order.trans)
  with Cons.IH [of cur] show ?case by (simp add: e)
qed

lemma cleanup_subseq: "subseq (cleanupConversations c) c"
  unfolding cleanupConversations_def by (rule cleanup_loop_subseq)

text \<open>
  On a map with no empty history the pass deletes from the front, the keys
  inserted first, down to 100 entries.
\<close>

lemma cleanup_loop_exact:
  "distinct (map fst (done @ todo)) \<Longrightarrow> list_all (\<lambda>e. snd e \<noteq> []) todo \<Longrightarrow>
   cleanup_loop todo (done @ todo) = done @ drop (length (done @ todo) - 100) todo"
proof (induction todo arbitrary: "done")
  case Nil
  then show ?case by simp
next
  case (Cons e rest)
  obtain key messages where e: "e = (key, messages)" by (cases e)
  from Cons.prems have ne: "messages \<noteq> []" and rest: "list_all (\<lambda>e. snd e \<noteq> []) rest"
    by (simp_all add: e)
  show ?case
  proof (cases "length (done @ e # rest) > 100")
    case True
    from Cons.prems(1) have d: "distinct (map fst (done @ rest))" by (simp add: e)
    have "cleanup_loop (e # rest) (done @ e # rest) = cleanup_loop rest (done @ rest)"
      using True ne Map_delete_mid [of "done" key messages rest] Cons.prems(1)
      by (simp add: e)
    also have "\<dots> = done @ drop (length (done @ rest) - 100) rest"
      by (rule Cons.IH [OF d rest])
    also have "\<dots> = done @ drop (length (done @ e # rest) - 100) (e # rest)"
      using True by (simp add: drop_Cons')
    finally show ?thesis .
  next
    case False
    from Cons.prems(1) have d: "distinct (map fst ((done @ [e]) @ rest))" by simp
    have "cleanup_loop (e # rest) (done @ e # rest) = cleanup_loop rest ((done @ [e]) @ rest)"
      using False ne by (simp add: e)
    also have "\<dots> = (done @ [e]) @ drop (length ((done @ [e]) @ rest) - 100) rest"
      by (rule Cons.IH [OF d rest])
    finally show ?thesis using False by simp
  qed
qed

lemma cleanupConversations_evicts_oldest:
  "distinct (map fst c) \<Longrightarrow> list_all (\<lambda>e. snd e \<noteq> []) c \<Longrightarrow>
   cleanupConversations c = drop (length c - 100) c"
  using cleanup_loop_exact [of "[]" c] by (simp add: cleanupConversations_def)

lemma cleanup_after_set:
  assumes inv: "cacheInvariant c" and v: "v \<noteq> []"
  shows "cacheInvariant (cleanupConversations (Map_set k v c)) \<and>
         map_of (cleanupConversations (Map_set k v c)) k = Some v"
proof -
  let ?c' = "Map_set k v c"
  from inv have d: "distinct (map fst c)" and len: "length c \<le> 100"
    and ne: "list_all (\<lambda>e. snd e \<noteq> []) c"
    by (simp_all add: cacheInvariant_def)
  have d': "distinct (map fst ?c')" using d by (rule distinct_Map_set)
  have ne': "list_all (\<lambda>e. snd e \<noteq> []) ?c'" using ne v by (simp add: list_all_Map_set)
  have ex: "cleanupConversations ?c' = drop (length ?c' - 100) ?c'"
    using d' ne' by (rule cleanupConversations_evicts_oldest)
  have d'': "distinct (map fst (drop (length ?c' - 100) ?c'))"
    using d' by (simp add: drop_map [symmetric] distinct_drop del: drop_map)
  have ne'': "list_all (\<lambda>e. snd e \<noteq> []) (drop (length ?c' - 100) ?c')"
    using ne' by (auto simp: list_all_iff dest: in_set_dropD)
  have inv': "cacheInvariant (cleanupConversations ?c')"
    unfolding cacheInvariant_def
    using cleanup_bound [of ?c'] d'' ne'' by (simp add: ex)
  have "map_of (drop (length ?c' - 100) ?c') k = Some v"
  proof (cases "k \<in> fst ` set c")
    case True
    then have "length ?c' = length c" by (rule length_Map_set_old)
    with len show ?thesis by (simp add: map_of_Map_set)
  next
    case False
    then have c': "?c' = c @ [(k, v)]" by (rule Map_set_new)
    have "k \<notin> fst ` set (drop (length c + 1 - 100) c)"
      using False by (auto dest: in_set_dropD)
    then have "map_of (drop (length c + 1 - 100) c) k = None"
      by (simp add: map_of_eq_None_iff)
    with len show ?thesis by (simp add: c' map_add_def)
  qed
  with ex inv' show ?thesis by simp
qed

subsection \<open>One message, and several\<close>

lemma converse_given:
  "fst (snd (converse callClaude c k t)) =
     drop (length (history_of c k @ [\<lparr>role = ''user'', content = t\<rparr>]) - 20)
       (history_of c k @ [\<lparr>role = ''user'', content = t\<rparr>])"
  by (auto simp: converse_def Let_def split: sum.splits option.splits)

lemma converse_success:
  assumes "callClaude (drop (length (history_of c k @ [\<lparr>role = ''user'', content = t\<rparr>]) - 20)
       (history_of c k @ [\<lparr>role = ''user'', content = t\<rparr>])) = Inr r"
  shows "converse callClaude c k t =
     (cleanupConversations (Map_set k
        (drop (length (history_of c k @ [\<lparr>role = ''user'', content = t\<rparr>]) - 20)
           (history_of c k @ [\<lparr>role = ''user'', content = t\<rparr>])
         @ [\<lparr>role = ''assistant'', content = r\<rparr>]) c),
      drop (length (history_of c k @ [\<lparr>role = ''user'', content = t\<rparr>]) - 20)
       (history_of c k @ [\<lparr>role = ''user'', content = t\<rparr>]),
      Inr r)"
  using assms
  by (auto simp: converse_def Let_def split: option.splits)

lemma converse_failure:
  assumes "callClaude (drop (length (history_of c k @ [\<lparr>role = ''user'', content = t\<rparr>]) - 20)
       (history_of c k @ [\<lparr>role = ''user'', content = t\<rparr>])) = Inl e"
  shows "\<exists>c'. converse callClaude c k t =
           (c', drop (length (history_of c k @ [\<lparr>role = ''user'', content = t\<rparr>]) - 20)
                  (history_of c k @ [\<lparr>role = ''user'', content = t\<rparr>]), Inl e) \<and>
           length c' = length c"
proof (cases "map_of c k")
  case None
  with assms show ?thesis by (auto simp: converse_def Let_def)
next
  case (Some h)
  then have "k \<in> fst ` set c" by (force dest!: map_of_SomeD)
  then have "length (Map_set k v c) = length c" for v by (rule length_Map_set_old)
  with assms Some show ?thesis by (auto simp: converse_def Let_def)
qed

lemma last_n_append:
  "drop (length (drop (length xs - n) xs @ ys) - n) (drop (length xs - n) xs @ ys)
   = drop (length (xs @ ys) - n) (xs @ ys)"
  by (cases "length xs \<le> n") (auto simp: add.commute)

lemma last_21:
  "drop (length (xs @ [u]) - 20) (xs @ [u]) @ [a] = drop (length (xs @ [u, a]) - 21) (xs @ [u, a])"
  by (cases "length xs \<le> 19") (auto simp: Suc_diff_le)

lemma converse_all_stored:
  assumes "cacheInvariant c"
  shows "case converse_all (\<lambda>h. Inr (reply h)) c k texts of
           (final, pushed) \<Rightarrow>
             cacheInvariant final \<and> length pushed = 2 * length texts \<and>
             (texts = [] \<longrightarrow> final = c) \<and>
             (texts \<noteq> [] \<longrightarrow>
                map_of final k =
                  Some (drop (length (history_of c k @ pushed) - 21)
                          (history_of c k @ pushed)))"
  using assms
proof (induction texts arbitrary: c)
  case Nil
  then show ?case by simp
next
  case (Cons t ts)
  let ?u = "\<lparr>role = ''user'', content = t\<rparr>"
  let ?given = "drop (length (history_of c k @ [?u]) - 20) (history_of c k @ [?u])"
  let ?a = "\<lparr>role = ''assistant'', content = reply ?given\<rparr>"
  let ?c1 = "cleanupConversations (Map_set k (?given @ [?a]) c)"
  have step: "converse (\<lambda>h. Inr (reply h)) c k t = (?c1, ?given, Inr (reply ?given))"
    by (rule converse_success) simp
  from cleanup_after_set [OF Cons.prems, of "?given @ [?a]" k]
  have inv1: "cacheInvariant ?c1" and st1: "map_of ?c1 k = Some (?given @ [?a])" by simp_all
  have h1: "history_of ?c1 k = drop (length (history_of c k @ [?u, ?a]) - 21)
                                      (history_of c k @ [?u, ?a])"
    using st1 last_21 [of "history_of c k" ?u ?a] by (simp add: history_of_def)
  obtain final pushed where rest: "converse_all (\<lambda>h. Inr (reply h)) ?c1 k ts = (final, pushed)"
    by (cases "converse_all (\<lambda>h. Inr (reply h)) ?c1 k ts")
  from Cons.IH [OF inv1] rest
  have ih: "cacheInvariant final" "length pushed = 2 * length ts" "ts = [] \<longrightarrow> final = ?c1"
    "ts \<noteq> [] \<longrightarrow> map_of final k =
        Some (drop (length (history_of ?c1 k @ pushed) - 21) (history_of ?c1 k @ pushed))"
    by simp_all
  have all: "converse_all (\<lambda>h. Inr (reply h)) c k (t # ts) = (final, ?u # ?a # pushed)"
    using step rest by simp
  have "map_of final k = Some (drop (length (history_of c k @ ?u # ?a # pushed) - 21)
                                 (history_of c k @ ?u # ?a # pushed))"
  proof (cases "ts = []")
    case True
    with ih rest have "final = ?c1" "pushed = []" by simp_all
    with st1 h1 show ?thesis by (simp add: history_of_def)
  next
    case False
    with ih have "map_of final k =
        Some (drop (length (history_of ?c1 k @ pushed) - 21) (history_of ?c1 k @ pushed))"
      by simp
    also have "\<dots> = Some (drop (length ((history_of c k @ [?u, ?a]) @ pushed) - 21)
                             ((history_of c k @ [?u, ?a]) @ pushed))"
      unfolding h1 by (simp only: last_n_append)
    finally show ?thesis by simp
  qed
  with ih all show ?case by simp
qed

text \<open>The invariant holds after every handled message, whatever the LLM call did.\<close>

lemma converse_failure_map:
  assumes "callClaude (drop (length (history_of c k @ [\<lparr>role = ''user'', content = t\<rparr>]) - 20)
       (history_of c k @ [\<lparr>role = ''user'', content = t\<rparr>])) = Inl e"
  shows "fst (converse callClaude c k t) =
     (case map_of c k of
        None \<Rightarrow> c
      | Some h \<Rightarrow>
          Map_set k (drop (length (history_of c k @ [\<lparr>role = ''user'', content = t\<rparr>]) - 20)
            (history_of c k @ [\<lparr>role = ''user'', content = t\<rparr>])) c)"
  using assms by (auto simp: converse_def Let_def split: option.splits)

lemma cacheInvariant_converse:
  assumes "cacheInvariant c"
  shows "cacheInvariant (fst (converse callClaude c k t))"
proof (cases "callClaude (drop (length (history_of c k @ [\<lparr>role = ''user'', content = t\<rparr>]) - 20)
       (history_of c k @ [\<lparr>role = ''user'', content = t\<rparr>]))")
  case (Inr r)
  from converse_success [where callClaude = callClaude and c = c and k = k and t = t, OF Inr]
    cleanup_after_set [OF assms, of _ k]
  show ?thesis by simp
next
  case (Inl e)
  let ?given = "drop (length (history_of c k @ [\<lparr>role = ''user'', content = t\<rparr>]) - 20)
       (history_of c k @ [\<lparr>role = ''user'', content = t\<rparr>])"
  note f = converse_failure_map [where callClaude = callClaude and c = c and k = k and t = t, OF Inl]
  have ne: "?given \<noteq> []" by simp
  show ?thesis
  proof (cases "map_of c k")
    case None
    with f assms show ?thesis by simp
  next
    case (Some h)
    then have "k \<in> fst ` set c" by (force dest!: map_of_SomeD)
    then have "length (Map_set k ?given c) = length c" by (rule length_Map_set_old)
    with assms ne have "cacheInvariant (Map_set k ?given c)"
      by (simp add: cacheInvariant_def distinct_Map_set list_all_Map_set)
    with f Some show ?thesis by simp
  qed
qed

text \<open>
  Claim C4, as stated: after 25 entries appended under a key \<open>get(key)\<close> returns
  the last 20 of them, and the stored sequence never exceeds 20 entries. The
  handler appends two entries per message, the user's and the reply, and trims
  between the two: after 13 messages, 26 entries, the stored history has 21.
\<close>

theorem conversation_history_counterexample:
  "map_option length
     (map_of (fst (converse_all (\<lambda>h. Inr ''ok'') [] ''C1:1.5'' thirteenMessages)) ''C1:1.5'')
   = Some 21"
proof -
  have inv: "cacheInvariant []" by (simp add: cacheInvariant_def)
  obtain final pushed where
    r: "converse_all (\<lambda>h. Inr ''ok'') [] ''C1:1.5'' thirteenMessages = (final, pushed)"
    by fastforce
  from converse_all_stored
    [OF inv, where reply = "\<lambda>h. ''ok''" and k = "''C1:1.5''" and texts = thirteenMessages]
  have "length pushed = 26"
    and "map_of final ''C1:1.5'' =
      Some (drop (length (history_of [] ''C1:1.5'' @ pushed) - 21)
              (history_of [] ''C1:1.5'' @ pushed))"
    unfolding r by (simp_all add: thirteenMessages_def)
  then show ?thesis unfolding r by (simp add: history_of_def)
qed

subsection \<open>Whatever the LLM call does\<close>

lemma last_n_append_any:
  assumes n: "n \<le> m + length ys"
  shows "drop (length (drop (length xs - m) xs @ ys) - n) (drop (length xs - m) xs @ ys)
         = drop (length (xs @ ys) - n) (xs @ ys)"
proof (cases "length xs \<le> m")
  case True
  then show ?thesis by simp
next
  case False
  define A where "A = drop (length xs - m) xs"
  from False have l: "length A = m" by (simp add: A_def)
  from False n have e1: "m + length ys - n + (length xs - m) = length xs + length ys - n"
    by linarith
  from False n have e2: "m + length ys - n - m = length xs + length ys - n - length xs"
    by linarith
  have "drop (length (A @ ys) - n) (A @ ys)
        = drop (m + length ys - n) A @ drop (m + length ys - n - m) ys"
    by (simp only: drop_append length_append l)
  also have "\<dots> = drop (m + length ys - n + (length xs - m)) xs @ drop (m + length ys - n - m) ys"
    by (simp only: A_def drop_drop)
  also have "\<dots> = drop (length xs + length ys - n) xs
                   @ drop (length xs + length ys - n - length xs) ys"
    by (simp only: e1 e2)
  also have "\<dots> = drop (length (xs @ ys) - n) (xs @ ys)"
    by (simp only: drop_append length_append)
  finally show ?thesis unfolding A_def .
qed

text \<open>
  One message: what it appends to the stored history, and what is stored
  afterwards. The entries appended are those \<open>converse_all\<close> lists.
\<close>

lemma converse_step:
  assumes "cacheInvariant c"
  shows "case converse callClaude c k t of
           (c1, given, result) \<Rightarrow>
             cacheInvariant c1 \<and>
             (case result of
                Inr r \<Rightarrow>
                  map_of c1 k =
                    Some (drop (length (history_of c k @ [\<lparr>role = ''user'', content = t\<rparr>,
                                   \<lparr>role = ''assistant'', content = r\<rparr>]) - 21)
                            (history_of c k @ [\<lparr>role = ''user'', content = t\<rparr>,
                                   \<lparr>role = ''assistant'', content = r\<rparr>]))
              | Inl e \<Rightarrow>
                  (case map_of c k of
                     None \<Rightarrow> c1 = c
                   | Some h \<Rightarrow>
                       map_of c1 k =
                         Some (drop (length (history_of c k @ [\<lparr>role = ''user'', content = t\<rparr>]) - 20)
                                 (history_of c k @ [\<lparr>role = ''user'', content = t\<rparr>]))))"
proof -
  let ?u = "\<lparr>role = ''user'', content = t\<rparr>"
  let ?given = "drop (length (history_of c k @ [?u]) - 20) (history_of c k @ [?u])"
  from cacheInvariant_converse [OF assms, where callClaude = callClaude and k = k and t = t]
  have inv: "cacheInvariant (fst (converse callClaude c k t))" .
  show ?thesis
  proof (cases "callClaude ?given")
    case (Inr r)
    let ?a = "\<lparr>role = ''assistant'', content = r\<rparr>"
    note s = converse_success [where callClaude = callClaude and c = c and k = k and t = t, OF Inr]
    from cleanup_after_set [OF assms, of "?given @ [?a]" k]
    have "map_of (cleanupConversations (Map_set k (?given @ [?a]) c)) k = Some (?given @ [?a])"
      by simp
    also have "?given @ [?a] = drop (length (history_of c k @ [?u, ?a]) - 21)
                                  (history_of c k @ [?u, ?a])"
      by (rule last_21)
    finally show ?thesis using inv by (simp add: s)
  next
    case (Inl e)
    note f = converse_failure_map [where callClaude = callClaude and c = c and k = k and t = t, OF Inl]
    from converse_failure [where callClaude = callClaude and c = c and k = k and t = t, OF Inl]
    obtain c1 where s: "converse callClaude c k t = (c1, ?given, Inl e)" by blast
    from f s have c1: "c1 = (case map_of c k of None \<Rightarrow> c | Some h \<Rightarrow> Map_set k ?given c)"
      by simp
    from inv s have "cacheInvariant c1" by simp
    with c1 show ?thesis by (simp add: s map_of_Map_set split: option.splits)
  qed
qed

text \<open>
  Several messages: the stored history is the last 21 of what it was with the
  entries appended when the last message was answered, and the last 20 when it was
  not; nothing was appended only if every call threw under a key that was absent,
  and the map is as before then.
\<close>

lemma converse_all_any:
  assumes "cacheInvariant c"
  shows "case converse_all callClaude c k texts of
           (final, pushed) \<Rightarrow>
             cacheInvariant final \<and>
             (pushed = [] \<longrightarrow> final = c \<and> (texts \<noteq> [] \<longrightarrow> map_of c k = None)) \<and>
             (pushed \<noteq> [] \<longrightarrow>
                map_of final k =
                  Some (drop (length (history_of c k @ pushed)
                                - (if role (last pushed) = ''assistant'' then 21 else 20))
                          (history_of c k @ pushed))) \<and>
             (map_of c k \<noteq> None \<longrightarrow> length texts \<le> length pushed)"
  using assms
proof (induction texts arbitrary: c)
  case Nil
  then show ?case by simp
next
  case (Cons t ts)
  let ?u = "\<lparr>role = ''user'', content = t\<rparr>"
  let ?H = "history_of c k"
  obtain c1 given result where s: "converse callClaude c k t = (c1, given, result)"
    by (cases "converse callClaude c k t")
  define first where "first =
    (case result of
       Inr response \<Rightarrow> [?u, \<lparr>role = ''assistant'', content = response\<rparr>]
     | Inl e \<Rightarrow> (case map_of c k of None \<Rightarrow> [] | Some h \<Rightarrow> [?u]))"
  from converse_step [OF Cons.prems, where callClaude = callClaude and k = k and t = t] s
  have inv1: "cacheInvariant c1"
    and e: "first = [] \<longrightarrow> c1 = c \<and> map_of c k = None"
    and st1: "first \<noteq> [] \<longrightarrow>
      map_of c1 k = Some (drop (length (?H @ first)
                                  - (if role (last first) = ''assistant'' then 21 else 20))
                            (?H @ first))"
    and p1: "map_of c k \<noteq> None \<longrightarrow> first \<noteq> []"
    by (auto simp: first_def split: sum.splits option.splits)
  obtain final pushed where r: "converse_all callClaude c1 k ts = (final, pushed)"
    by (cases "converse_all callClaude c1 k ts")
  from Cons.IH [OF inv1] r
  have inv: "cacheInvariant final"
    and e': "pushed = [] \<longrightarrow> final = c1"
    and st: "pushed \<noteq> [] \<longrightarrow>
      map_of final k =
        Some (drop (length (history_of c1 k @ pushed)
                      - (if role (last pushed) = ''assistant'' then 21 else 20))
                (history_of c1 k @ pushed))"
    and p: "map_of c1 k \<noteq> None \<longrightarrow> length ts \<le> length pushed"
    by simp_all
  have all: "converse_all callClaude c k (t # ts) = (final, first @ pushed)"
    using s r by (simp add: first_def)
  have a: "first @ pushed = [] \<longrightarrow> final = c \<and> map_of c k = None"
    using e e' by simp
  have b: "map_of final k =
      Some (drop (length (?H @ first @ pushed)
                    - (if role (last (first @ pushed)) = ''assistant'' then 21 else 20))
              (?H @ first @ pushed))" if ne: "first @ pushed \<noteq> []"
  proof (cases "pushed = []")
    case True
    with ne e' st1 show ?thesis by simp
  next
    case False
    show ?thesis
    proof (cases "first = []")
      case True
      with e st False show ?thesis by simp
    next
      case f: False
      define m :: nat where "m = (if role (last first) = ''assistant'' then 21 else 20)"
      define n :: nat where "n = (if role (last pushed) = ''assistant'' then 21 else 20)"
      from f st1 have h1: "history_of c1 k = drop (length (?H @ first) - m) (?H @ first)"
        by (simp add: history_of_def m_def)
      from False have "n \<le> m + length pushed"
        by (cases pushed) (simp_all add: m_def n_def)
      from last_n_append_any [OF this, of "?H @ first"]
      have "drop (length (history_of c1 k @ pushed) - n) (history_of c1 k @ pushed)
            = drop (length (?H @ first @ pushed) - n) (?H @ first @ pushed)"
        unfolding h1 by simp
      with st False show ?thesis by (simp add: n_def)
    qed
  qed
  have d: "map_of c k \<noteq> None \<longrightarrow> length (t # ts) \<le> length (first @ pushed)"
  proof
    assume "map_of c k \<noteq> None"
    with p1 st1 have "first \<noteq> []" "map_of c1 k \<noteq> None" by simp_all
    with p show "length (t # ts) \<le> length (first @ pushed)" by (cases first) simp_all
  qed
  from inv a b d show ?case unfolding all by simp
qed

text \<open>
  Claim C4, amended: for every key, after one or more messages handled under it
  (each appends the user's entry, and then the reply of the LLM when the call
  returns one; the map holds at most 100 keys between requests), the stored
  sequence never exceeds 21 entries, whatever the calls to the LLM do. When the
  last message was answered \<open>get(key)\<close> returns exactly the last 21 entries
  appended, all of them when there are fewer, in their chronological order; when
  the call of the last message threw it returns exactly the last 20, the trimming
  having been done and the reply not appended. Nothing is appended only when the
  key was absent and every call threw, the map being left as it was. With every
  call answered there are two entries appended per message. The history given to
  the LLM is the last 20 entries appended up to the user's, and never more than 20;
  after one message the key holds that history with the reply when the call
  answered, that history alone when it threw and the key was present, and the map
  is unchanged when it threw and the key was absent.
\<close>

theorem conversation_history_last_21:
  assumes "cacheInvariant c" and "texts \<noteq> []"
  shows "(case converse_all callClaude c k texts of
            (final, pushed) \<Rightarrow>
              length (history_of final k) \<le> 21 \<and>
              (pushed \<noteq> [] \<longrightarrow>
                 map_of final k =
                   Some (drop (length (history_of c k @ pushed)
                                 - (if role (last pushed) = ''assistant'' then 21 else 20))
                           (history_of c k @ pushed))) \<and>
              (pushed = [] \<longrightarrow> final = c \<and> map_of c k = None) \<and>
              (map_of c k \<noteq> None \<longrightarrow> length texts \<le> length pushed)) \<and>
         (case converse_all (\<lambda>h. Inr (reply h)) c k texts of
            (final, pushed) \<Rightarrow>
              length pushed = 2 * length texts \<and>
              map_of final k =
                Some (drop (length (history_of c k @ pushed) - 21) (history_of c k @ pushed)) \<and>
              length (history_of final k) \<le> 21) \<and>
         fst (snd (converse callClaude c k t)) =
           drop (length (history_of c k @ [\<lparr>role = ''user'', content = t\<rparr>]) - 20)
             (history_of c k @ [\<lparr>role = ''user'', content = t\<rparr>]) \<and>
         length (fst (snd (converse callClaude c k t))) \<le> 20 \<and>
         (case converse callClaude c k t of
            (c1, given, Inr r) \<Rightarrow>
              map_of c1 k = Some (given @ [\<lparr>role = ''assistant'', content = r\<rparr>])
          | (c1, given, Inl e) \<Rightarrow>
              (case map_of c k of None \<Rightarrow> c1 = c | Some h \<Rightarrow> map_of c1 k = Some given))"
proof -
  obtain final pushed where
    r: "converse_all callClaude c k texts = (final, pushed)" by fastforce
  from converse_all_any
    [OF assms(1), where callClaude = callClaude and k = k and texts = texts] assms(2)
  have e: "pushed = [] \<longrightarrow> final = c \<and> map_of c k = None"
    and st: "pushed \<noteq> [] \<longrightarrow>
      map_of final k =
        Some (drop (length (history_of c k @ pushed)
                      - (if role (last pushed) = ''assistant'' then 21 else 20))
                (history_of c k @ pushed))"
    and p: "map_of c k \<noteq> None \<longrightarrow> length texts \<le> length pushed"
    unfolding r by simp_all
  have l: "length (history_of final k) \<le> 21"
  proof (cases "pushed = []")
    case True
    with e show ?thesis by (simp add: history_of_def)
  next
    case False
    define n :: nat where "n = (if role (last pushed) = ''assistant'' then 21 else 20)"
    define X where "X = history_of c k @ pushed"
    from False st have "map_of final k = Some (drop (length X - n) X)"
      unfolding X_def n_def by blast
    then have "history_of final k = drop (length X - n) X"
      by (simp add: history_of_def [of final k])
    moreover have "n \<le> 21" by (simp add: n_def)
    ultimately show ?thesis by simp
  qed
  have A: "case converse_all callClaude c k texts of
            (final, pushed) \<Rightarrow>
              length (history_of final k) \<le> 21 \<and>
              (pushed \<noteq> [] \<longrightarrow>
                 map_of final k =
                   Some (drop (length (history_of c k @ pushed)
                                 - (if role (last pushed) = ''assistant'' then 21 else 20))
                           (history_of c k @ pushed))) \<and>
              (pushed = [] \<longrightarrow> final = c \<and> map_of c k = None) \<and>
              (map_of c k \<noteq> None \<longrightarrow> length texts \<le> length pushed)"
    unfolding r using l st e p by simp
  obtain final' pushed' where
    r': "converse_all (\<lambda>h. Inr (reply h)) c k texts = (final', pushed')" by fastforce
  from converse_all_stored [OF assms(1), where reply = reply and k = k and texts = texts] assms(2)
  have a: "length pushed' = 2 * length texts"
    and b: "map_of final' k =
      Some (drop (length (history_of c k @ pushed') - 21) (history_of c k @ pushed'))"
    unfolding r' by simp_all
  from b have "length (history_of final' k) \<le> 21" by (simp add: history_of_def)
  with a b have B: "case converse_all (\<lambda>h. Inr (reply h)) c k texts of
            (final, pushed) \<Rightarrow>
              length pushed = 2 * length texts \<and>
              map_of final k =
                Some (drop (length (history_of c k @ pushed) - 21) (history_of c k @ pushed)) \<and>
              length (history_of final k) \<le> 21"
    unfolding r' by simp
  note g = converse_given [where callClaude = callClaude and c = c and k = k and t = t]
  have C: "length (fst (snd (converse callClaude c k t))) \<le> 20"
    unfolding g by simp
  have D: "case converse callClaude c k t of
            (c1, given, Inr r) \<Rightarrow>
              map_of c1 k = Some (given @ [\<lparr>role = ''assistant'', content = r\<rparr>])
          | (c1, given, Inl e) \<Rightarrow>
              (case map_of c k of None \<Rightarrow> c1 = c | Some h \<Rightarrow> map_of c1 k = Some given)"
  proof (cases "callClaude (drop (length (history_of c k @ [\<lparr>role = ''user'', content = t\<rparr>]) - 20)
       (history_of c k @ [\<lparr>role = ''user'', content = t\<rparr>]))")
    case (Inr x)
    note s = converse_success [where callClaude = callClaude and c = c and k = k and t = t, OF Inr]
    from cleanup_after_set [OF assms(1), of _ k] show ?thesis by (simp add: s)
  next
    case (Inl x)
    note f = converse_failure_map [where callClaude = callClaude and c = c and k = k and t = t, OF Inl]
    from converse_failure [where callClaude = callClaude and c = c and k = k and t = t, OF Inl]
    obtain c1 where s: "converse callClaude c k t =
        (c1, drop (length (history_of c k @ [\<lparr>role = ''user'', content = t\<rparr>]) - 20)
               (history_of c k @ [\<lparr>role = ''user'', content = t\<rparr>]), Inl x)"
      by blast
    from f s have "c1 =
        (case map_of c k of
           None \<Rightarrow> c
         | Some h \<Rightarrow>
             Map_set k (drop (length (history_of c k @ [\<lparr>role = ''user'', content = t\<rparr>]) - 20)
               (history_of c k @ [\<lparr>role = ''user'', content = t\<rparr>])) c)"
      by simp
    then show ?thesis by (simp add: s map_of_Map_set split: option.splits)
  qed
  show ?thesis by (intro conjI) (rule A B g C D)+
qed

theorem conversation_history_last_21_witness:
  "cacheInvariant [] \<and> thirteenMessages \<noteq> [] \<and>
   snd (converse_all unansweredAt13 [] ''C1:1.5'' thirteenMessages) \<noteq> [] \<and>
   length (snd (converse_all unansweredAt13 [] ''C1:1.5'' thirteenMessages)) = 25 \<and>
   role (last (snd (converse_all unansweredAt13 [] ''C1:1.5'' thirteenMessages))) = ''user'' \<and>
   map_of (fst (converse_all unansweredAt13 [] ''C1:1.5'' thirteenMessages)) ''C1:1.5'' =
     Some (drop 5 (snd (converse_all unansweredAt13 [] ''C1:1.5'' thirteenMessages))) \<and>
   length (history_of (fst (converse_all unansweredAt13 [] ''C1:1.5'' thirteenMessages)) ''C1:1.5'')
     = 20 \<and>
   (case converse_all (\<lambda>h. Inr ''ok'') [] ''C1:1.5'' thirteenMessages of
      (final, pushed) \<Rightarrow>
        length pushed = 26 \<and>
        map_of final ''C1:1.5'' = Some (drop (length pushed - 21) pushed) \<and>
        length (history_of final ''C1:1.5'') \<le> 21) \<and>
   fst (snd (converse (\<lambda>h. Inr ''ok'') [] ''C1:1.5'' ''m1''))
     = [\<lparr>role = ''user'', content = ''m1''\<rparr>]"
proof -
  have h1: "cacheInvariant []" by (simp add: cacheInvariant_def)
  have h2: "thirteenMessages \<noteq> []" by (simp add: thirteenMessages_def)
  obtain final pushed where
    r: "converse_all unansweredAt13 [] ''C1:1.5'' thirteenMessages = (final, pushed)"
    by fastforce
  have "snd (converse_all unansweredAt13 [] ''C1:1.5'' thirteenMessages) =
    concat (map (\<lambda>m. [\<lparr>role = ''user'', content = m\<rparr>, \<lparr>role = ''assistant'', content = ''ok''\<rparr>])
              (butlast thirteenMessages))
    @ [\<lparr>role = ''user'', content = ''m13''\<rparr>]"
    by (simp add: thirteenMessages_def converse_def history_of_def cleanupConversations_def
          Map_delete_def Let_def unansweredAt13_def)
  then have pushed: "pushed =
    concat (map (\<lambda>m. [\<lparr>role = ''user'', content = m\<rparr>, \<lparr>role = ''assistant'', content = ''ok''\<rparr>])
              (butlast thirteenMessages))
    @ [\<lparr>role = ''user'', content = ''m13''\<rparr>]"
    unfolding r by simp
  then have p1: "pushed \<noteq> []" and p2: "length pushed = 25" and p3: "role (last pushed) = ''user''"
    by (simp_all add: thirteenMessages_def)
  note T = conversation_history_last_21
    [OF h1 h2, where callClaude = unansweredAt13 and reply = "\<lambda>h. ''ok''" and k = "''C1:1.5''"
       and t = "''m1''"]
  from T [THEN conjunct1] p1
  have "map_of final ''C1:1.5'' =
      Some (drop (length (history_of [] ''C1:1.5'' @ pushed)
                    - (if role (last pushed) = ''assistant'' then 21 else 20))
              (history_of [] ''C1:1.5'' @ pushed))"
    unfolding r by simp
  with p2 p3 have a: "map_of final ''C1:1.5'' = Some (drop 5 pushed)"
    by (simp add: history_of_def)
  with p2 have b: "length (history_of final ''C1:1.5'') = 20" by (simp add: history_of_def)
  from T [THEN conjunct2, THEN conjunct1]
  have c: "case converse_all (\<lambda>h. Inr ''ok'') [] ''C1:1.5'' thirteenMessages of
      (final, pushed) \<Rightarrow>
        length pushed = 26 \<and>
        map_of final ''C1:1.5'' = Some (drop (length pushed - 21) pushed) \<and>
        length (history_of final ''C1:1.5'') \<le> 21"
    by (simp add: history_of_def thirteenMessages_def split: prod.splits)
  from T [THEN conjunct2, THEN conjunct2, THEN conjunct1]
  have d: "fst (snd (converse (\<lambda>h. Inr ''ok'') [] ''C1:1.5'' ''m1''))
     = [\<lparr>role = ''user'', content = ''m1''\<rparr>]"
    by (simp add: history_of_def converse_def Let_def)
  from h1 h2 p1 p2 p3 a b c d show ?thesis unfolding r by simp
qed

text \<open>
  Within the cap the pass deletes the entries with an empty history and no other.
\<close>

lemma cleanup_loop_within_cap:
  "distinct (map fst (done @ todo)) \<Longrightarrow> length (done @ todo) \<le> 100 \<Longrightarrow>
   cleanup_loop todo (done @ todo) = done @ filter (\<lambda>e. snd e \<noteq> []) todo"
proof (induction todo arbitrary: "done")
  case Nil
  then show ?case by simp
next
  case (Cons e rest)
  obtain key messages where e: "e = (key, messages)" by (cases e)
  show ?case
  proof (cases "messages = []")
    case True
    from Cons.prems(1) have d: "distinct (map fst (done @ rest))" by (simp add: e)
    from Cons.prems(2) have l: "length (done @ rest) \<le> 100" by simp
    have "cleanup_loop (e # rest) (done @ e # rest) = cleanup_loop rest (done @ rest)"
      using True Map_delete_mid [of "done" key messages rest] Cons.prems(1) by (simp add: e)
    with Cons.IH [OF d l] True show ?thesis by (simp add: e)
  next
    case False
    from Cons.prems(1) have d: "distinct (map fst ((done @ [e]) @ rest))" by simp
    from Cons.prems(2) have l: "length ((done @ [e]) @ rest) \<le> 100" by simp
    have "cleanup_loop (e # rest) (done @ e # rest) = cleanup_loop rest ((done @ [e]) @ rest)"
      using False Cons.prems(2) by (simp add: e)
    with Cons.IH [OF d l] False show ?thesis by (simp add: e)
  qed
qed

lemma cleanup_within_cap:
  "distinct (map fst c) \<Longrightarrow> length c \<le> 100 \<Longrightarrow>
   cleanupConversations c = filter (\<lambda>e. snd e \<noteq> []) c"
  using cleanup_loop_within_cap [of "[]" c] by (simp add: cleanupConversations_def)

text \<open>
  The pass never evicts further than the cap asks for: an entry with a history
  goes only while the map holds more than 100.
\<close>

lemma cleanup_loop_no_more:
  "distinct (map fst (done @ todo)) \<Longrightarrow>
   min (length (done @ todo)) 100 - length (filter (\<lambda>e. snd e = []) todo)
     \<le> length (cleanup_loop todo (done @ todo))"
proof (induction todo arbitrary: "done")
  case Nil
  then show ?case by simp
next
  case (Cons e rest)
  obtain key messages where e: "e = (key, messages)" by (cases e)
  show ?case
  proof (cases "messages = [] \<or> length (done @ e # rest) > 100")
    case True
    from Cons.prems have d: "distinct (map fst (done @ rest))" by (simp add: e)
    have "cleanup_loop (e # rest) (done @ e # rest) = cleanup_loop rest (done @ rest)"
      using True Map_delete_mid [of "done" key messages rest] Cons.prems by (auto simp: e)
    with Cons.IH [OF d] True show ?thesis by (auto simp: e)
  next
    case False
    from Cons.prems have d: "distinct (map fst ((done @ [e]) @ rest))" by simp
    have "cleanup_loop (e # rest) (done @ e # rest) = cleanup_loop rest ((done @ [e]) @ rest)"
      using False by (simp add: e)
    with Cons.IH [OF d] False show ?thesis by (simp add: e)
  qed
qed

lemma cleanup_no_more:
  "distinct (map fst c) \<Longrightarrow>
   min (length c) 100 - length (filter (\<lambda>e. snd e = []) c) \<le> length (cleanupConversations c)"
  using cleanup_loop_no_more [of "[]" c] by (simp add: cleanupConversations_def)

text \<open>
  Claim C7. After the maintenance pass that follows every append the map holds
  at most 100 distinct keys: when there are more, the pass evicts whole entries
  until the cap is restored.

  The pass leaves at most 100 entries, and what it leaves is the map with some
  entries taken out whole. It takes out no more than the cap asks for: of a map
  within the cap it takes the entries with an empty history and no other, and of
  a map with no empty history, as every map the handler has stored into is, it
  takes the entries in excess of 100, those inserted first, and leaves
  \<open>min (length c) 100\<close>. A handled message leaves the map within the cap when the
  LLM answered, the map being what the pass makes of the map with the new history
  stored, and with as many entries as before when the call threw (no key is added
  then, and the pass is not reached); either way the invariant of the map holds
  afterwards.
\<close>

theorem cleanupConversations_cap:
  "length (cleanupConversations c) \<le> 100 \<and>
   card (fst ` set (cleanupConversations c)) \<le> 100 \<and>
   subseq (cleanupConversations c) c \<and>
   (distinct (map fst c) \<longrightarrow>
      min (length c) 100 - length (filter (\<lambda>e. snd e = []) c)
        \<le> length (cleanupConversations c) \<and>
      (length c \<le> 100 \<longrightarrow> cleanupConversations c = filter (\<lambda>e. snd e \<noteq> []) c) \<and>
      (list_all (\<lambda>e. snd e \<noteq> []) c \<longrightarrow>
         cleanupConversations c = drop (length c - 100) c \<and>
         length (cleanupConversations c) = min (length c) 100)) \<and>
   (case converse callClaude c k t of
      (c', given, Inr r) \<Rightarrow>
        length c' \<le> 100 \<and>
        c' = cleanupConversations
               (Map_set k (given @ [\<lparr>role = ''assistant'', content = r\<rparr>]) c)
    | (c', given, Inl e) \<Rightarrow> length c' = length c) \<and>
   (cacheInvariant c \<longrightarrow> cacheInvariant (fst (converse callClaude c k t)))"
proof -
  have "card (fst ` set (cleanupConversations c)) \<le> length (cleanupConversations c)"
    by (metis card_length length_map list.set_map)
  with cleanup_bound [of c] have a: "card (fst ` set (cleanupConversations c)) \<le> 100"
    by linarith
  have b: "case converse callClaude c k t of
      (c', given, Inr r) \<Rightarrow>
        length c' \<le> 100 \<and>
        c' = cleanupConversations
               (Map_set k (given @ [\<lparr>role = ''assistant'', content = r\<rparr>]) c)
    | (c', given, Inl e) \<Rightarrow> length c' = length c"
  proof (cases "callClaude (drop (length (history_of c k @ [\<lparr>role = ''user'', content = t\<rparr>]) - 20)
       (history_of c k @ [\<lparr>role = ''user'', content = t\<rparr>]))")
    case (Inl e)
    from converse_failure [where callClaude = callClaude and c = c and k = k and t = t, OF Inl]
    show ?thesis by auto
  next
    case (Inr r)
    from converse_success [where callClaude = callClaude and c = c and k = k and t = t, OF Inr]
    show ?thesis by (simp add: cleanup_bound)
  qed
  have d: "list_all (\<lambda>e. snd e \<noteq> []) c \<longrightarrow>
         cleanupConversations c = drop (length c - 100) c \<and>
         length (cleanupConversations c) = min (length c) 100" if "distinct (map fst c)"
    using cleanupConversations_evicts_oldest [OF that] by auto
  from a b d cleanup_bound [of c] cleanup_subseq [of c] cleanup_no_more [of c]
    cleanup_within_cap [of c] cacheInvariant_converse [of c callClaude k t]
  show ?thesis by blast
qed

theorem cleanupConversations_cap_witness:
  "distinct (map fst crowded) \<and> list_all (\<lambda>e. snd e \<noteq> []) crowded \<and> length crowded = 101 \<and>
   cleanupConversations crowded = drop 1 crowded \<and>
   length (cleanupConversations crowded) = 100 \<and>
   cleanupConversations
     [(''C1:1.5'', []), (''C1:2.5'', [\<lparr>role = ''user'', content = ''hi''\<rparr>])]
     = [(''C1:2.5'', [\<lparr>role = ''user'', content = ''hi''\<rparr>])] \<and>
   cacheInvariant [] \<and>
   cacheInvariant (fst (converse unansweredAt13 [] ''C1:1.5'' ''m1''))"
proof -
  have h1: "distinct (map fst crowded)"
    by (simp add: crowded_def distinct_map comp_def inj_on_def)
  have h2: "list_all (\<lambda>e. snd e \<noteq> []) crowded" by (simp add: crowded_def list_all_iff)
  have h3: "length crowded = 101" by (simp add: crowded_def)
  have h4: "cacheInvariant []" by (simp add: cacheInvariant_def)
  note T = cleanupConversations_cap
    [where c = crowded and callClaude = unansweredAt13 and k = "''C1:1.5''" and t = "''m1''"]
  from T h1 h2 have "cleanupConversations crowded = drop (length crowded - 100) crowded \<and>
         length (cleanupConversations crowded) = min (length crowded) 100" by blast
  with h3 have a: "cleanupConversations crowded = drop 1 crowded"
    and b: "length (cleanupConversations crowded) = 100" by simp_all
  have c: "cleanupConversations
     [(''C1:1.5'', []), (''C1:2.5'', [\<lparr>role = ''user'', content = ''hi''\<rparr>])]
     = [(''C1:2.5'', [\<lparr>role = ''user'', content = ''hi''\<rparr>])]"
    by (simp add: cleanupConversations_def Map_delete_def)
  from cleanupConversations_cap
    [where c = "[]" and callClaude = unansweredAt13 and k = "''C1:1.5''" and t = "''m1''"] h4
  have d: "cacheInvariant (fst (converse unansweredAt13 [] ''C1:1.5'' ''m1''))" by blast
  from h1 h2 h3 a b c h4 d show ?thesis by blast
qed

section \<open>Posting a reply in chunks: results\<close>

lemma lastIndexOf_scan_cases:
  "lastIndexOf_scan c xs i found = found \<or>
   (\<exists>j<length xs. xs ! j = c \<and> lastIndexOf_scan c xs i found = int (i + j))"
proof (induction xs arbitrary: i found)
  case Nil
  then show ?case by simp
next
  case (Cons x xs)
  from Cons.IH [of "Suc i" "if x = c then int i else found"]
  show ?case
  proof
    assume "lastIndexOf_scan c xs (Suc i) (if x = c then int i else found)
            = (if x = c then int i else found)"
    then show ?thesis by (cases "x = c") auto
  next
    assume "\<exists>j<length xs. xs ! j = c \<and>
      lastIndexOf_scan c xs (Suc i) (if x = c then int i else found) = int (Suc i + j)"
    then obtain j where "j < length xs" "xs ! j = c"
      "lastIndexOf_scan c xs (Suc i) (if x = c then int i else found) = int (Suc i + j)"
      by blast
    then have "Suc j < length (x # xs) \<and> (x # xs) ! Suc j = c \<and>
      lastIndexOf_scan c (x # xs) i found = int (i + Suc j)" by simp
    then show ?thesis by blast
  qed
qed

lemma lastIndexOf_scan_greatest:
  "j < length xs \<Longrightarrow> xs ! j = c \<Longrightarrow> int (i + j) \<le> lastIndexOf_scan c xs i found"
proof (induction xs arbitrary: i found j)
  case Nil
  then show ?case by simp
next
  case (Cons x xs)
  show ?case
  proof (cases j)
    case 0
    with Cons.prems have "x = c" by simp
    then have "lastIndexOf_scan c (x # xs) i found = lastIndexOf_scan c xs (Suc i) (int i)"
      by simp
    moreover from lastIndexOf_scan_cases [of c xs "Suc i" "int i"]
    have "int i \<le> lastIndexOf_scan c xs (Suc i) (int i)" by auto
    ultimately show ?thesis using 0 by simp
  next
    case (Suc n)
    with Cons.prems have "n < length xs" "xs ! n = c" by simp_all
    from Cons.IH [OF this, of "Suc i" "if x = c then int i else found"]
    show ?thesis using Suc by simp
  qed
qed

text \<open>
  The model of \<open>lastIndexOf\<close> is the function of the language: \<open>-1\<close> or an index
  within \<open>fromIndex\<close> that holds the character, and no smaller than any such index.
\<close>

lemma lastIndexOf_cases:
  "lastIndexOf str c n = - 1 \<or>
   (\<exists>j. j \<le> n \<and> j < length str \<and> str ! j = c \<and> lastIndexOf str c n = int j)"
proof -
  from lastIndexOf_scan_cases [of c "take (Suc n) str" 0 "- 1"]
  show ?thesis unfolding lastIndexOf_def by auto
qed

lemma lastIndexOf_greatest:
  assumes "j \<le> n" "j < length str" "str ! j = c"
  shows "int j \<le> lastIndexOf str c n"
proof -
  have "j < length (take (Suc n) str)" "take (Suc n) str ! j = c"
    using assms by simp_all
  from lastIndexOf_scan_greatest [OF this, of 0 "- 1"] show ?thesis
    by (simp add: lastIndexOf_def)
qed

lemma splitIdx_bounds: "1950 \<le> splitIdx r \<and> splitIdx r \<le> 3900"
  using lastIndexOf_cases [of r newline maxLen]
  by (auto simp: splitIdx_def maxLen_def Let_def)

lemma splitIdx_newline:
  assumes "1950 \<le> j" "j \<le> 3900" "j < length r" "r ! j = newline"
  shows "r ! nat (splitIdx r) = newline \<and> int j \<le> splitIdx r"
proof -
  from lastIndexOf_greatest [of j maxLen r newline] assms
  have ge: "int j \<le> lastIndexOf r newline maxLen" by (simp add: maxLen_def)
  with lastIndexOf_cases [of r newline maxLen] assms
  obtain n where "r ! n = newline" "lastIndexOf r newline maxLen = int n" by auto
  with ge assms show ?thesis by (auto simp: splitIdx_def Let_def maxLen_def)
qed

lemma chunks_long:
  "maxLen < length r \<Longrightarrow>
   chunks r = take (nat (splitIdx r)) r # chunks (drop (nat (splitIdx r)) r)"
  by (subst chunks.simps) auto

lemma chunks_length: "chunk \<in> set (chunks r) \<Longrightarrow> 0 < length chunk \<and> length chunk \<le> maxLen"
proof (induction r rule: chunks.induct)
  case (1 remaining)
  show ?case
  proof (cases "length remaining \<le> maxLen")
    case True
    with "1.prems" show ?thesis by (auto simp: chunks.simps [of remaining] split: if_splits)
  next
    case False
    then have pos: "0 < length remaining" by (cases remaining) simp_all
    from "1.prems" False pos
    have "chunk = take (nat (splitIdx remaining)) remaining \<or>
          chunk \<in> set (chunks (drop (nat (splitIdx remaining)) remaining))"
      by (simp add: chunks.simps [of remaining])
    then show ?thesis
    proof
      assume "chunk = take (nat (splitIdx remaining)) remaining"
      with False splitIdx_bounds [of remaining] show ?thesis by (auto simp: maxLen_def)
    next
      assume "chunk \<in> set (chunks (drop (nat (splitIdx remaining)) remaining))"
      with "1.IH" pos False show ?thesis by simp
    qed
  qed
qed

lemma concat_chunks: "concat (chunks r) = r"
proof (induction r rule: chunks.induct)
  case (1 remaining)
  show ?case
  proof (cases "0 < length remaining \<and> \<not> length remaining \<le> maxLen")
    case True
    with "1.IH" show ?thesis by (simp add: chunks.simps [of remaining])
  next
    case False
    then show ?thesis by (auto simp: chunks.simps [of remaining])
  qed
qed

subsection \<open>The posting loop\<close>

text \<open>
  What the loop hands over is a prefix of the chunks, each with the channel and
  the thread of the call; it is all of them when no \<open>fetch\<close> is rejected, and it
  ends with the chunk whose \<open>fetch\<close> was rejected otherwise.
\<close>

lemma post_loop_prefix: "prefix (map post_text (fst (post_loop P ch th cs))) cs"
  by (induction cs) (auto split: prod.splits)

lemma post_loop_fields:
  "p \<in> set (fst (post_loop P ch th cs)) \<Longrightarrow>
   post_channel p = ch \<and> post_thread_ts p = th \<and> post_text p \<in> set cs"
  by (induction cs) (auto split: prod.splits if_splits)

lemma post_loop_nonempty: "cs \<noteq> [] \<Longrightarrow> fst (post_loop P ch th cs) \<noteq> []"
  by (cases cs) (auto split: prod.splits)

lemma post_loop_resolved:
  "list_all (\<lambda>chunk. fetchResolves P postMessageUrl (postMessageBody ch chunk th)) cs \<Longrightarrow>
   post_loop P ch th cs =
     (map (\<lambda>chunk. \<lparr>post_channel = ch, post_text = chunk, post_thread_ts = th\<rparr>) cs, None)"
  by (induction cs) auto

lemma post_loop_completed:
  "snd (post_loop P ch th cs) = None \<Longrightarrow>
   map post_text (fst (post_loop P ch th cs)) = cs \<and>
   list_all (\<lambda>chunk. fetchResolves P postMessageUrl (postMessageBody ch chunk th)) cs"
  by (induction cs) (auto split: prod.splits if_splits)

lemma post_loop_rejected:
  "snd (post_loop P ch th cs) = Some e \<Longrightarrow>
   e = TypeError \<and> fst (post_loop P ch th cs) \<noteq> [] \<and>
   \<not> fetchResolves P postMessageUrl
       (postMessageBody ch (post_text (last (fst (post_loop P ch th cs)))) th)"
  by (induction cs) (auto split: prod.splits if_splits)

subsection \<open>The chunks of a reply, one by one\<close>

lemma chunks_short: "length r \<le> maxLen \<Longrightarrow> chunks r = (if r = [] then [] else [r])"
  by (subst chunks.simps) auto

lemma chunks_empty_iff: "chunks r = [] \<longleftrightarrow> r = []"
  by (subst chunks.simps) auto

text \<open>
  What is left to send before the chunk of index \<open>i\<close> is the concatenation of the
  chunks from \<open>i\<close> on, and its chunks are those.
\<close>

lemma chunks_drop: "chunks (concat (drop i (chunks r))) = drop i (chunks r)"
proof (induction r arbitrary: i rule: chunks.induct)
  case (1 remaining)
  show ?case
  proof (cases i)
    case 0
    then show ?thesis by (simp add: concat_chunks)
  next
    case (Suc n)
    show ?thesis
    proof (cases "length remaining \<le> maxLen")
      case True
      then show ?thesis using Suc by (simp add: chunks_short chunks_empty_iff)
    next
      case False
      then have pos: "0 < length remaining" by (cases remaining) simp_all
      from False have "chunks remaining =
          take (nat (splitIdx remaining)) remaining
            # chunks (drop (nat (splitIdx remaining)) remaining)"
        by (simp add: chunks_long)
      with "1.IH" [OF pos False, of n] Suc show ?thesis by simp
    qed
  qed
qed

lemma chunks_step:
  assumes "Suc i < length (chunks r)"
  shows "maxLen < length (concat (drop i (chunks r))) \<and>
         chunks r ! i =
           take (nat (splitIdx (concat (drop i (chunks r))))) (concat (drop i (chunks r))) \<and>
         concat (drop (Suc i) (chunks r)) =
           drop (nat (splitIdx (concat (drop i (chunks r))))) (concat (drop i (chunks r)))"
proof -
  define remaining where "remaining = concat (drop i (chunks r))"
  have c: "chunks remaining = drop i (chunks r)"
    unfolding remaining_def by (rule chunks_drop)
  from assms have two: "2 \<le> length (chunks remaining)" unfolding c by simp
  have long: "maxLen < length remaining"
  proof (rule ccontr)
    assume "\<not> maxLen < length remaining"
    then have "chunks remaining = (if remaining = [] then [] else [remaining])"
      by (simp add: chunks_short)
    with two show False by (simp split: if_splits)
  qed
  from chunks_long [OF long] c
  have d: "drop i (chunks r) =
      take (nat (splitIdx remaining)) remaining
        # chunks (drop (nat (splitIdx remaining)) remaining)"
    by simp
  from assms have i: "i < length (chunks r)" by simp
  from d have "hd (drop i (chunks r)) = take (nat (splitIdx remaining)) remaining" by simp
  with i have e: "chunks r ! i = take (nat (splitIdx remaining)) remaining"
    by (simp add: hd_drop_conv_nth)
  from d have "tl (drop i (chunks r)) = chunks (drop (nat (splitIdx remaining)) remaining)"
    by simp
  then have "drop (Suc i) (chunks r) = chunks (drop (nat (splitIdx remaining)) remaining)"
    by (simp add: drop_Suc tl_drop)
  then have f: "concat (drop (Suc i) (chunks r)) = drop (nat (splitIdx remaining)) remaining"
    by (simp add: concat_chunks)
  from long e f show ?thesis unfolding remaining_def by simp
qed

text \<open>With no newline in the range the cut is at 3900.\<close>

lemma splitIdx_hard_cut:
  assumes "\<And>j. 1950 \<le> j \<Longrightarrow> j \<le> 3900 \<Longrightarrow> j < length r \<Longrightarrow> r ! j \<noteq> newline"
  shows "splitIdx r = 3900"
proof -
  from lastIndexOf_cases [of r newline maxLen]
  show ?thesis
  proof
    assume "lastIndexOf r newline maxLen = - 1"
    then show ?thesis by (simp add: splitIdx_def Let_def maxLen_def)
  next
    assume "\<exists>j\<le>maxLen. j < length r \<and> r ! j = newline \<and> lastIndexOf r newline maxLen = int j"
    then obtain j where j: "j \<le> maxLen" "j < length r" "r ! j = newline"
      "lastIndexOf r newline maxLen = int j" by blast
    with assms [of j] have "j < 1950" by (cases "1950 \<le> j") (auto simp: maxLen_def)
    with j show ?thesis by (simp add: splitIdx_def Let_def maxLen_def)
  qed
qed

lemma splitIdx_longReply: "splitIdx longReply = 2000"
proof -
  have n: "longReply ! 2000 = newline" by (simp add: longReply_def nth_append)
  have l: "2000 < length longReply" by (simp add: longReply_def)
  from splitIdx_newline [of 2000 longReply] n l
  have ge: "2000 \<le> splitIdx longReply" and at: "longReply ! nat (splitIdx longReply) = newline"
    by simp_all
  from splitIdx_bounds [of longReply] have le: "splitIdx longReply \<le> 3900" by simp
  have "nat (splitIdx longReply) = 2000"
  proof (rule ccontr)
    assume ne: "nat (splitIdx longReply) \<noteq> 2000"
    define m where "m = nat (splitIdx longReply)"
    from ge le ne have m: "2000 < m" "m \<le> 3900" unfolding m_def by linarith+
    then have "longReply ! m = CHR ''b''"
      by (simp add: longReply_def nth_append nth_Cons')
    with at show False unfolding m_def by (simp add: newline_def)
  qed
  with ge show ?thesis by linarith
qed

lemma chunks_longReply:
  "chunks longReply = [replicate 2000 CHR ''a'', newline # replicate 2000 CHR ''b'']"
proof -
  have l: "maxLen < length longReply" by (simp add: longReply_def maxLen_def)
  have t: "take 2000 longReply = replicate 2000 CHR ''a''" by (simp add: longReply_def)
  have d: "drop 2000 longReply = newline # replicate 2000 CHR ''b''" by (simp add: longReply_def)
  have "chunks (newline # replicate 2000 CHR ''b'') = [newline # replicate 2000 CHR ''b'']"
    by (simp add: chunks_short maxLen_def)
  with chunks_long [OF l] t d show ?thesis by (simp add: splitIdx_longReply)
qed

text \<open>
  Claim C6. Every reply posted to the chat platform is split into chunks of at
  most 3900 characters each, and where a newline stands in the admissible range,
  at an index from 1950 to 3900 of what remains to be sent, the split is at a
  newline, the last one of the range, and not a cut at 3900.

  Of the poster: with a bot token, what it hands to \<open>chat.postMessage\<close> is the
  chunks of the reply in their order, each with the channel and the thread of the
  call, up to the first whose \<open>fetch\<close> is rejected, that one included; so all of
  them when none is rejected, and at least one for a reply that is not empty. With
  no token it posts nothing. Of the chunks: none is empty and none has more than
  3900 characters, a reply of at most 3900 characters is its one chunk, and every
  chunk but the last is cut off what remains to be sent, which has more than 3900
  characters then, at an index from 1950 to 3900: at the last newline of that
  range when there is one, and at 3900 when there is none.
\<close>

theorem postToSlack_chunks_bounded:
  "(\<forall>p \<in> set (fst (postToSlack P E channel reply threadTs)).
      length (post_text p) \<le> 3900 \<and> post_text p \<noteq> [] \<and>
      post_channel p = channel \<and> post_thread_ts p = threadTs) \<and>
   prefix (map post_text (fst (postToSlack P E channel reply threadTs))) (chunks reply) \<and>
   (\<not> present (SLACK_BOT_TOKEN E) \<longrightarrow> postToSlack P E channel reply threadTs = ([], None)) \<and>
   (present (SLACK_BOT_TOKEN E) \<longrightarrow>
      (reply \<noteq> [] \<longrightarrow> fst (postToSlack P E channel reply threadTs) \<noteq> []) \<and>
      (list_all (\<lambda>chunk. fetchResolves P postMessageUrl (postMessageBody channel chunk threadTs))
         (chunks reply) \<longrightarrow>
         map post_text (fst (postToSlack P E channel reply threadTs)) = chunks reply \<and>
         snd (postToSlack P E channel reply threadTs) = None) \<and>
      (snd (postToSlack P E channel reply threadTs) = None \<longrightarrow>
         map post_text (fst (postToSlack P E channel reply threadTs)) = chunks reply) \<and>
      (snd (postToSlack P E channel reply threadTs) \<noteq> None \<longrightarrow>
         snd (postToSlack P E channel reply threadTs) = Some TypeError \<and>
         fst (postToSlack P E channel reply threadTs) \<noteq> [] \<and>
         \<not> fetchResolves P postMessageUrl
             (postMessageBody channel
                (post_text (last (fst (postToSlack P E channel reply threadTs)))) threadTs))) \<and>
   (\<forall>chunk \<in> set (chunks reply). chunk \<noteq> [] \<and> length chunk \<le> 3900) \<and>
   (length reply \<le> 3900 \<longrightarrow> chunks reply = (if reply = [] then [] else [reply])) \<and>
   (\<forall>i. Suc i < length (chunks reply) \<longrightarrow>
      3900 < length (concat (drop i (chunks reply))) \<and>
      chunks reply ! i =
        take (nat (splitIdx (concat (drop i (chunks reply))))) (concat (drop i (chunks reply))) \<and>
      concat (drop (Suc i) (chunks reply)) =
        drop (nat (splitIdx (concat (drop i (chunks reply))))) (concat (drop i (chunks reply)))) \<and>
   (3900 < length remaining \<longrightarrow>
      chunks remaining =
        take (nat (splitIdx remaining)) remaining
          # chunks (drop (nat (splitIdx remaining)) remaining) \<and>
      1950 \<le> splitIdx remaining \<and> splitIdx remaining \<le> 3900 \<and>
      (\<forall>j. 1950 \<le> j \<and> j \<le> 3900 \<and> remaining ! j = newline \<longrightarrow>
         remaining ! nat (splitIdx remaining) = newline \<and> int j \<le> splitIdx remaining) \<and>
      ((\<forall>j. 1950 \<le> j \<and> j \<le> 3900 \<longrightarrow> remaining ! j \<noteq> newline) \<longrightarrow>
         splitIdx remaining = 3900))"
proof -
  let ?posted = "postToSlack P E channel reply threadTs"
  have a: "\<forall>p \<in> set (fst ?posted).
      length (post_text p) \<le> 3900 \<and> post_text p \<noteq> [] \<and>
      post_channel p = channel \<and> post_thread_ts p = threadTs"
  proof
    fix p assume p: "p \<in> set (fst ?posted)"
    then have "p \<in> set (fst (post_loop P channel threadTs (chunks reply)))"
      by (simp add: postToSlack_def split: if_splits)
    from post_loop_fields [OF this] chunks_length [of "post_text p" reply]
    show "length (post_text p) \<le> 3900 \<and> post_text p \<noteq> [] \<and>
      post_channel p = channel \<and> post_thread_ts p = threadTs"
      by (auto simp: maxLen_def)
  qed
  have b: "prefix (map post_text (fst ?posted)) (chunks reply)"
    by (simp add: postToSlack_def post_loop_prefix)
  have c: "\<not> present (SLACK_BOT_TOKEN E) \<longrightarrow> ?posted = ([], None)"
    by (simp add: postToSlack_def)
  have d1: "present (SLACK_BOT_TOKEN E) \<longrightarrow> reply \<noteq> [] \<longrightarrow> fst ?posted \<noteq> []"
    using post_loop_nonempty [of "chunks reply" P channel threadTs]
    by (simp add: postToSlack_def chunks_empty_iff)
  have d2: "present (SLACK_BOT_TOKEN E) \<longrightarrow>
      list_all (\<lambda>chunk. fetchResolves P postMessageUrl (postMessageBody channel chunk threadTs))
         (chunks reply) \<longrightarrow>
         map post_text (fst ?posted) = chunks reply \<and> snd ?posted = None"
    using post_loop_resolved [of P channel threadTs "chunks reply"]
    by (simp add: postToSlack_def comp_def)
  have d3: "present (SLACK_BOT_TOKEN E) \<longrightarrow> snd ?posted = None \<longrightarrow>
         map post_text (fst ?posted) = chunks reply"
    using post_loop_completed [of P channel threadTs "chunks reply"]
    by (simp add: postToSlack_def)
  have d4: "present (SLACK_BOT_TOKEN E) \<longrightarrow> snd ?posted \<noteq> None \<longrightarrow>
         snd ?posted = Some TypeError \<and> fst ?posted \<noteq> [] \<and>
         \<not> fetchResolves P postMessageUrl
             (postMessageBody channel (post_text (last (fst ?posted))) threadTs)"
    using post_loop_rejected [of P channel threadTs "chunks reply"]
    by (auto simp: postToSlack_def)
  have e: "\<forall>chunk \<in> set (chunks reply). chunk \<noteq> [] \<and> length chunk \<le> 3900"
    using chunks_length [of _ reply] by (auto simp: maxLen_def)
  have f: "length reply \<le> 3900 \<longrightarrow> chunks reply = (if reply = [] then [] else [reply])"
    using chunks_short [of reply] by (simp add: maxLen_def)
  have g: "\<forall>i. Suc i < length (chunks reply) \<longrightarrow>
      3900 < length (concat (drop i (chunks reply))) \<and>
      chunks reply ! i =
        take (nat (splitIdx (concat (drop i (chunks reply))))) (concat (drop i (chunks reply))) \<and>
      concat (drop (Suc i) (chunks reply)) =
        drop (nat (splitIdx (concat (drop i (chunks reply))))) (concat (drop i (chunks reply)))"
    using chunks_step [of _ reply] by (simp add: maxLen_def)
  have d: "present (SLACK_BOT_TOKEN E) \<longrightarrow>
      (reply \<noteq> [] \<longrightarrow> fst ?posted \<noteq> []) \<and>
      (list_all (\<lambda>chunk. fetchResolves P postMessageUrl (postMessageBody channel chunk threadTs))
         (chunks reply) \<longrightarrow>
         map post_text (fst ?posted) = chunks reply \<and> snd ?posted = None) \<and>
      (snd ?posted = None \<longrightarrow> map post_text (fst ?posted) = chunks reply) \<and>
      (snd ?posted \<noteq> None \<longrightarrow>
         snd ?posted = Some TypeError \<and> fst ?posted \<noteq> [] \<and>
         \<not> fetchResolves P postMessageUrl
             (postMessageBody channel (post_text (last (fst ?posted))) threadTs))"
    by (intro impI conjI) (use d1 d2 d3 d4 in simp_all)
  have h: "3900 < length remaining \<longrightarrow>
      chunks remaining =
        take (nat (splitIdx remaining)) remaining
          # chunks (drop (nat (splitIdx remaining)) remaining) \<and>
      1950 \<le> splitIdx remaining \<and> splitIdx remaining \<le> 3900 \<and>
      (\<forall>j. 1950 \<le> j \<and> j \<le> 3900 \<and> remaining ! j = newline \<longrightarrow>
         remaining ! nat (splitIdx remaining) = newline \<and> int j \<le> splitIdx remaining) \<and>
      ((\<forall>j. 1950 \<le> j \<and> j \<le> 3900 \<longrightarrow> remaining ! j \<noteq> newline) \<longrightarrow>
         splitIdx remaining = 3900)"
  proof
    assume l: "3900 < length remaining"
    have h1: "chunks remaining =
        take (nat (splitIdx remaining)) remaining
          # chunks (drop (nat (splitIdx remaining)) remaining)"
      using l chunks_long [of remaining] by (simp add: maxLen_def)
    have h2: "\<forall>j. 1950 \<le> j \<and> j \<le> 3900 \<and> remaining ! j = newline \<longrightarrow>
         remaining ! nat (splitIdx remaining) = newline \<and> int j \<le> splitIdx remaining"
      using l splitIdx_newline [of _ remaining] by auto
    have h3: "(\<forall>j. 1950 \<le> j \<and> j \<le> 3900 \<longrightarrow> remaining ! j \<noteq> newline) \<longrightarrow>
         splitIdx remaining = 3900"
      using splitIdx_hard_cut [of remaining] by blast
    from splitIdx_bounds [of remaining]
    have h4: "1950 \<le> splitIdx remaining" and h5: "splitIdx remaining \<le> 3900" by simp_all
    show "chunks remaining =
        take (nat (splitIdx remaining)) remaining
          # chunks (drop (nat (splitIdx remaining)) remaining) \<and>
      1950 \<le> splitIdx remaining \<and> splitIdx remaining \<le> 3900 \<and>
      (\<forall>j. 1950 \<le> j \<and> j \<le> 3900 \<and> remaining ! j = newline \<longrightarrow>
         remaining ! nat (splitIdx remaining) = newline \<and> int j \<le> splitIdx remaining) \<and>
      ((\<forall>j. 1950 \<le> j \<and> j \<le> 3900 \<longrightarrow> remaining ! j \<noteq> newline) \<longrightarrow>
         splitIdx remaining = 3900)"
      by (intro conjI) (rule h1 h2 h3 h4 h5)+
  qed
  show ?thesis by (intro conjI) (rule a b c d e f g h)+
qed

theorem postToSlack_chunks_bounded_witness:
  "present (SLACK_BOT_TOKEN slackEnv) \<and>
   list_all (\<lambda>chunk. fetchResolves samplePlatform postMessageUrl
                        (postMessageBody ''C1'' chunk ''1.5''))
     (chunks longReply) \<and>
   length longReply = 4001 \<and> longReply ! 2000 = newline \<and>
   chunks longReply = [replicate 2000 CHR ''a'', newline # replicate 2000 CHR ''b''] \<and>
   map post_text (fst (postToSlack samplePlatform slackEnv ''C1'' longReply ''1.5''))
     = [replicate 2000 CHR ''a'', newline # replicate 2000 CHR ''b''] \<and>
   snd (postToSlack samplePlatform slackEnv ''C1'' longReply ''1.5'') = None \<and>
   list_all (\<lambda>p. length (post_text p) \<le> 3900 \<and> post_channel p = ''C1'' \<and>
                  post_thread_ts p = ''1.5'')
     (fst (postToSlack samplePlatform slackEnv ''C1'' longReply ''1.5'')) \<and>
   longReply ! nat (splitIdx longReply) = newline \<and> 2000 \<le> splitIdx longReply \<and>
   chunks longReply =
     take (nat (splitIdx longReply)) longReply # chunks (drop (nat (splitIdx longReply)) longReply)"
proof -
  let ?posted = "postToSlack samplePlatform slackEnv ''C1'' longReply ''1.5''"
  have t: "present (SLACK_BOT_TOKEN slackEnv)" by (simp add: slackEnv_def present_def)
  have r: "list_all (\<lambda>chunk. fetchResolves samplePlatform postMessageUrl
                        (postMessageBody ''C1'' chunk ''1.5'')) (chunks longReply)"
    by (simp add: samplePlatform_def list_all_iff)
  have l: "3900 < length longReply" by (simp add: longReply_def)
  have l': "length longReply = 4001" by (simp add: longReply_def)
  have n: "longReply ! 2000 = newline" by (simp add: longReply_def nth_append)
  have cs: "chunks longReply = [replicate 2000 CHR ''a'', newline # replicate 2000 CHR ''b'']"
    by (rule chunks_longReply)
  note T = postToSlack_chunks_bounded
    [where P = samplePlatform and E = slackEnv and channel = "''C1''" and reply = longReply
       and threadTs = "''1.5''" and remaining = longReply]
  note D = T [THEN conjunct2, THEN conjunct2, THEN conjunct2, THEN conjunct1, rule_format, OF t]
  note H = T [THEN conjunct2, THEN conjunct2, THEN conjunct2, THEN conjunct2, THEN conjunct2,
    THEN conjunct2, THEN conjunct2, rule_format, OF l]
  from D r have m: "map post_text (fst ?posted) = chunks longReply" and s: "snd ?posted = None"
    by blast+
  from T have "\<forall>p \<in> set (fst ?posted).
      length (post_text p) \<le> 3900 \<and> post_text p \<noteq> [] \<and>
      post_channel p = ''C1'' \<and> post_thread_ts p = ''1.5''"
    by (rule conjunct1)
  then have a: "list_all (\<lambda>p. length (post_text p) \<le> 3900 \<and> post_channel p = ''C1'' \<and>
                  post_thread_ts p = ''1.5'') (fst ?posted)"
    by (simp add: list_all_iff)
  from H have b: "chunks longReply =
     take (nat (splitIdx longReply)) longReply # chunks (drop (nat (splitIdx longReply)) longReply)"
    and c: "\<forall>j. 1950 \<le> j \<and> j \<le> 3900 \<and> longReply ! j = newline \<longrightarrow>
         longReply ! nat (splitIdx longReply) = newline \<and> int j \<le> splitIdx longReply"
    by blast+
  from c [rule_format, of 2000] n
  have d: "longReply ! nat (splitIdx longReply) = newline \<and> 2000 \<le> splitIdx longReply"
    by simp
  from m cs have m': "map post_text (fst ?posted)
     = [replicate 2000 CHR ''a'', newline # replicate 2000 CHR ''b'']" by (simp only:)
  from t r l' n cs m' s a d b show ?thesis by blast
qed

text \<open>
  Claim C10. For every text the splitting loop of the chat poster terminates,
  each turn that splits taking at least 1950 characters, half the limit, off what
  remains, and the chunks concatenated in order are the text: nothing is lost,
  duplicated or reordered. Termination is the totality of \<open>chunks\<close>, proved where
  it is defined; the result is a list, whose concatenation is the text. What the
  poster hands over, concatenated in order, is the text when there is a bot token
  and no \<open>fetch\<close> is rejected, nothing when there is no token, and the text up to
  the end of the chunk whose \<open>fetch\<close> was rejected otherwise.
\<close>

theorem chunks_concat_progress:
  "concat (chunks reply) = reply \<and>
   (list_all (\<lambda>chunk. fetchResolves P postMessageUrl (postMessageBody channel chunk threadTs))
      (chunks reply) \<or> snd (postToSlack P E channel reply threadTs) = None \<longrightarrow>
    concat (map post_text (fst (postToSlack P E channel reply threadTs)))
      = (if present (SLACK_BOT_TOKEN E) then reply else [])) \<and>
   prefix (concat (map post_text (fst (postToSlack P E channel reply threadTs)))) reply \<and>
   (maxLen < length remaining \<longrightarrow>
      chunks remaining =
        take (nat (splitIdx remaining)) remaining
          # chunks (drop (nat (splitIdx remaining)) remaining) \<and>
      length (drop (nat (splitIdx remaining)) remaining) + 1950 \<le> length remaining)"
proof -
  let ?posted = "postToSlack P E channel reply threadTs"
  have a: "concat (chunks reply) = reply" by (rule concat_chunks)
  have b: "list_all (\<lambda>chunk. fetchResolves P postMessageUrl (postMessageBody channel chunk threadTs))
      (chunks reply) \<or> snd ?posted = None \<longrightarrow>
    concat (map post_text (fst ?posted)) = (if present (SLACK_BOT_TOKEN E) then reply else [])"
  proof (cases "present (SLACK_BOT_TOKEN E)")
    case False
    then show ?thesis by (simp add: postToSlack_def)
  next
    case True
    then have p: "?posted = post_loop P channel threadTs (chunks reply)"
      by (simp add: postToSlack_def)
    show ?thesis
    proof
      assume "list_all (\<lambda>chunk. fetchResolves P postMessageUrl
                  (postMessageBody channel chunk threadTs)) (chunks reply) \<or> snd ?posted = None"
      then have "map post_text (fst ?posted) = chunks reply"
      proof
        assume "list_all (\<lambda>chunk. fetchResolves P postMessageUrl
                  (postMessageBody channel chunk threadTs)) (chunks reply)"
        from post_loop_resolved [OF this] show ?thesis unfolding p by (simp add: comp_def)
      next
        assume "snd ?posted = None"
        with post_loop_completed [of P channel threadTs "chunks reply"] show ?thesis
          unfolding p by simp
      qed
      with a True show "concat (map post_text (fst ?posted))
         = (if present (SLACK_BOT_TOKEN E) then reply else [])" by simp
    qed
  qed
  have "prefix (map post_text (fst ?posted)) (chunks reply)"
    by (simp add: postToSlack_def post_loop_prefix)
  then obtain zs where "chunks reply = map post_text (fst ?posted) @ zs"
    by (auto simp: prefix_def)
  then have "concat (chunks reply) = concat (map post_text (fst ?posted)) @ concat zs"
    by simp
  with a have "reply = concat (map post_text (fst ?posted)) @ concat zs" by simp
  then have c: "prefix (concat (map post_text (fst ?posted))) reply"
    by (rule prefixI)
  have d: "maxLen < length remaining \<longrightarrow>
      chunks remaining =
        take (nat (splitIdx remaining)) remaining
          # chunks (drop (nat (splitIdx remaining)) remaining) \<and>
      length (drop (nat (splitIdx remaining)) remaining) + 1950 \<le> length remaining"
    using splitIdx_bounds [of remaining] chunks_long [of remaining] by (auto simp: maxLen_def)
  show ?thesis by (intro conjI) (rule a b c d)+
qed

theorem chunks_concat_progress_witness:
  "maxLen < length longReply \<and>
   list_all (\<lambda>chunk. fetchResolves samplePlatform postMessageUrl
                        (postMessageBody ''C1'' chunk ''1.5''))
     (chunks longReply) \<and>
   present (SLACK_BOT_TOKEN slackEnv) \<and>
   concat (chunks longReply) = longReply \<and>
   concat (map post_text (fst (postToSlack samplePlatform slackEnv ''C1'' longReply ''1.5'')))
     = longReply \<and>
   chunks longReply =
     take (nat (splitIdx longReply)) longReply # chunks (drop (nat (splitIdx longReply)) longReply) \<and>
   length (drop (nat (splitIdx longReply)) longReply) + 1950 \<le> length longReply"
proof -
  have l: "maxLen < length longReply" by (simp add: longReply_def maxLen_def)
  have t: "present (SLACK_BOT_TOKEN slackEnv)" by (simp add: slackEnv_def present_def)
  have r: "list_all (\<lambda>chunk. fetchResolves samplePlatform postMessageUrl
                        (postMessageBody ''C1'' chunk ''1.5'')) (chunks longReply)"
    by (simp add: samplePlatform_def list_all_iff)
  note T = chunks_concat_progress
    [where reply = longReply and P = samplePlatform and E = slackEnv and channel = "''C1''"
       and threadTs = "''1.5''" and remaining = longReply]
  from T have a: "concat (chunks longReply) = longReply" by (rule conjunct1)
  from T [THEN conjunct2, THEN conjunct1] r
  have "concat (map post_text (fst (postToSlack samplePlatform slackEnv ''C1'' longReply ''1.5'')))
     = (if present (SLACK_BOT_TOKEN slackEnv) then longReply else [])" by blast
  with t have b:
    "concat (map post_text (fst (postToSlack samplePlatform slackEnv ''C1'' longReply ''1.5'')))
     = longReply"
    by (simp only: if_True)
  from T [THEN conjunct2, THEN conjunct2, THEN conjunct2] l have c: "chunks longReply =
     take (nat (splitIdx longReply)) longReply # chunks (drop (nat (splitIdx longReply)) longReply) \<and>
     length (drop (nat (splitIdx longReply)) longReply) + 1950 \<le> length longReply"
    by blast
  from l r t a b c show ?thesis by blast
qed

section \<open>Grouping error reports: results\<close>

text \<open>
  Claim C5. Grouping is by the pair (type, message): one issue per distinct pair,
  with the number of reports of the pair as its count.

  The key of a group is the one string \<open>type:message\<close>, so two pairs that make the
  same string fall into one group: the reports \<open>(a:b, c)\<close> and \<open>(a, b:c)\<close>, distinct
  pairs, come out as one group with count 2, where the claim has two groups with
  count 1 each.
\<close>

theorem groupErrors_key_collision:
  "groupErrors
     [\<lparr>errType = ''a:b'', errMessage = ''c'', errSeverity = ''error'',
       errTimestamp = ''2024-01-01T00:00:00Z''\<rparr>,
      \<lparr>errType = ''a'', errMessage = ''b:c'', errSeverity = ''warning'',
       errTimestamp = ''2024-01-01T00:00:05Z''\<rparr>]
   = [\<lparr>errType = ''a:b'', errMessage = ''c'', errSeverity = ''error'',
       errTimestamp = ''2024-01-01T00:00:00Z'', count = 2\<rparr>]"
  by (simp add: groupErrors_def groupKey_def report.extend_def error_group.fields_def)

text \<open>The instance the claim names: two reports of one type and message.\<close>

lemma groupErrors_same_pair:
  "errType a = errType b \<Longrightarrow> errMessage a = errMessage b \<Longrightarrow>
   groupErrors [a, b] = [report.extend a (error_group.fields 2)]"
  by (simp add: groupErrors_def groupKey_def report.extend_def error_group.fields_def)

lemma groupKey_count_update [simp]: "groupKey (g\<lparr>count := n\<rparr>) = groupKey g"
  by (simp add: groupKey_def)

lemma count_extend [simp]: "count (report.extend err (error_group.fields n)) = n"
  by (simp add: report.extend_def error_group.fields_def)

lemma keyed_Map_set:
  "keyed groups \<Longrightarrow> groupKey g = k \<Longrightarrow> keyed (Map_set k g groups)"
  by (simp add: keyed_def distinct_Map_set list_all_Map_set)

lemma groupErrors_loop_counts:
  assumes "keyed groups"
  shows "keyed (groupErrors_loop errors groups) \<and>
         fst ` set (groupErrors_loop errors groups) = fst ` set groups \<union> groupKey ` set errors \<and>
         (\<forall>k. map_option count (map_of (groupErrors_loop errors groups) k) =
            (case map_of groups k of
               Some g \<Rightarrow> Some (count g + length (filter (\<lambda>e. groupKey e = k) errors))
             | None \<Rightarrow>
                 if k \<in> groupKey ` set errors
                 then Some (length (filter (\<lambda>e. groupKey e = k) errors)) else None))"
  using assms
proof (induction errors arbitrary: groups)
  case Nil
  then show ?case by (auto split: option.splits)
next
  case (Cons err errors)
  let ?k = "groupKey err"
  show ?case
  proof (cases "map_of groups ?k")
    case None
    let ?g = "report.extend err (error_group.fields 1)"
    let ?groups = "Map_set ?k ?g groups"
    have step: "groupErrors_loop (err # errors) groups = groupErrors_loop errors ?groups"
      using None by simp
    have k: "keyed ?groups" using Cons.prems
      by (rule keyed_Map_set) (simp add: groupKey_def report.extend_def)
    note ih = Cons.IH [OF k]
    have counts: "map_option count (map_of (groupErrors_loop errors ?groups) k) =
            (case map_of groups k of
               Some g \<Rightarrow> Some (count g + length (filter (\<lambda>e. groupKey e = k) (err # errors)))
             | None \<Rightarrow>
                 if k \<in> groupKey ` set (err # errors)
                 then Some (length (filter (\<lambda>e. groupKey e = k) (err # errors))) else None)" for k
    proof (cases "k = ?k")
      case True
      with ih None show ?thesis by (simp add: map_of_Map_set)
    next
      case False
      with ih show ?thesis by (auto simp: map_of_Map_set split: option.splits)
    qed
    from ih have "fst ` set (groupErrors_loop errors ?groups)
        = fst ` set groups \<union> groupKey ` set (err # errors)"
      by (auto simp: keys_Map_set)
    with ih counts show ?thesis unfolding step by blast
  next
    case (Some g)
    let ?g = "g\<lparr>count := count g + 1\<rparr>"
    let ?groups = "Map_set ?k ?g groups"
    have step: "groupErrors_loop (err # errors) groups = groupErrors_loop errors ?groups"
      using Some by simp
    from Some have mem: "(?k, g) \<in> set groups" by (rule map_of_SomeD)
    with Cons.prems have "groupKey g = ?k" by (auto simp: keyed_def list_all_iff)
    then have k: "keyed ?groups" using Cons.prems by (simp add: keyed_Map_set)
    note ih = Cons.IH [OF k]
    have counts: "map_option count (map_of (groupErrors_loop errors ?groups) k) =
            (case map_of groups k of
               Some g \<Rightarrow> Some (count g + length (filter (\<lambda>e. groupKey e = k) (err # errors)))
             | None \<Rightarrow>
                 if k \<in> groupKey ` set (err # errors)
                 then Some (length (filter (\<lambda>e. groupKey e = k) (err # errors))) else None)" for k
    proof (cases "k = ?k")
      case True
      with ih Some show ?thesis by (simp add: map_of_Map_set)
    next
      case False
      with ih show ?thesis by (auto simp: map_of_Map_set split: option.splits)
    qed
    from mem have "?k \<in> fst ` set groups" by force
    with ih have "fst ` set (groupErrors_loop errors ?groups)
        = fst ` set groups \<union> groupKey ` set (err # errors)"
      by (auto simp: keys_Map_set)
    with ih counts show ?thesis unfolding step by blast
  qed
qed

text \<open>
  What \<open>groupErrors\<close> does: one group for each distinct key \<open>type:message\<close>, with
  the number of the reports of that key as its count.
\<close>

lemma groupErrors_by_key:
  "distinct (map groupKey (groupErrors errors)) \<and>
   groupKey ` set (groupErrors errors) = groupKey ` set errors \<and>
   list_all (\<lambda>g. count g = length (filter (\<lambda>e. groupKey e = groupKey g) errors))
     (groupErrors errors)"
proof -
  let ?R = "groupErrors_loop errors []"
  have k0: "keyed []" by (simp add: keyed_def)
  from groupErrors_loop_counts [OF k0, of errors]
  have kd: "keyed ?R" and keys: "fst ` set ?R = groupKey ` set errors"
    and counts: "\<And>k. map_option count (map_of ?R k) =
        (if k \<in> groupKey ` set errors
         then Some (length (filter (\<lambda>e. groupKey e = k) errors)) else None)"
    by simp_all
  from kd have same: "map groupKey (map snd ?R) = map fst ?R"
    by (auto simp: keyed_def list_all_iff)
  from kd have d: "distinct (map groupKey (groupErrors errors))"
    unfolding groupErrors_def same by (simp add: keyed_def)
  have s: "groupKey ` set (groupErrors errors) = groupKey ` set errors"
    using keys same unfolding groupErrors_def by (metis list.set_map)
  have "count g = length (filter (\<lambda>e. groupKey e = groupKey g) errors)"
    if "g \<in> set (groupErrors errors)" for g
  proof -
    from that obtain k where kg: "(k, g) \<in> set ?R" by (auto simp: groupErrors_def)
    with kd have gk: "groupKey g = k" by (auto simp: keyed_def list_all_iff)
    from kd kg have "map_of ?R k = Some g" by (simp add: keyed_def)
    with counts [of k] gk show ?thesis by (auto split: if_splits)
  qed
  then have "list_all (\<lambda>g. count g = length (filter (\<lambda>e. groupKey e = groupKey g) errors))
     (groupErrors errors)" by (simp add: list_all_iff)
  with d s show ?thesis by blast
qed

text \<open>
  Two reports whose types hold no colon have one key exactly when they have one
  type and one message: for such reports the groups are those of the pairs.
\<close>

lemma groupKey_pair:
  assumes "CHR '':'' \<notin> set (errType a)" and "CHR '':'' \<notin> set (errType b)"
  shows "groupKey a = groupKey b \<longleftrightarrow> errType a = errType b \<and> errMessage a = errMessage b"
proof
  assume eq: "groupKey a = groupKey b"
  have "takeWhile (\<lambda>c. c \<noteq> CHR '':'') (groupKey a) = errType a"
    using assms(1) by (auto simp: groupKey_def takeWhile_tail)
  moreover have "takeWhile (\<lambda>c. c \<noteq> CHR '':'') (groupKey b) = errType b"
    using assms(2) by (auto simp: groupKey_def takeWhile_tail)
  ultimately have "errType a = errType b" using eq by simp
  with eq show "errType a = errType b \<and> errMessage a = errMessage b"
    by (simp add: groupKey_def)
next
  assume "errType a = errType b \<and> errMessage a = errMessage b"
  then show "groupKey a = groupKey b" by (simp add: groupKey_def)
qed

section \<open>Choosing the message builder: results\<close>

text \<open>
  Claim C8. \<open>format(kind, data)\<close> is total: for every kind, the six of the enum or
  any other, it returns a message and never raises; a kind that is not recognised
  gives the fallback message.

  The kind \<open>__proto__\<close> is none of the six, and \<open>builders['__proto__']\<close> is not
  \<open>undefined\<close>: it is \<open>Object.prototype\<close>, which the test \<open>!builder\<close> lets through and
  the call \<open>builder(data)\<close> cannot call. \<open>buildMessage\<close> raises a TypeError there,
  whatever the data and the builders.
\<close>

theorem buildMessage_proto_raises:
  "buildMessage P B ''__proto__'' payload = Inl TypeError"
  by (simp add: buildMessage_def)

text \<open>The fallback, for a kind that is neither one of the six nor inherited.\<close>

lemma buildMessage_fallback:
  assumes "kind \<notin> set [''bug'', ''feature'', ''deployment'', ''digest'', ''incident'', ''pr'']"
    and "kind \<notin> set [''__proto__'', ''constructor'', ''toString'', ''isPrototypeOf'']"
    and "kind \<notin> set throwingPrototypeNames"
  shows "buildMessage P B kind payload =
           Inr (JObj [(''text'', JStr (''['' @ kind @ ''] '' @ jsonStringify P payload))])"
  using assms by (simp add: buildMessage_def)

section \<open>Truncation: results\<close>

text \<open>
  Claim C9. For every string \<open>s\<close> and limit \<open>n\<close>: when \<open>s\<close> has at most \<open>n\<close>
  characters the result is \<open>s\<close> itself; when it is longer the result is its first
  \<open>n\<close> characters followed by \<open>...\<close>, of length \<open>n + 3\<close>. In particular a title
  of 300 characters truncated at 60 gives 63 characters ending in \<open>...\<close>.
\<close>

theorem truncate_spec:
  "(length s \<le> n \<longrightarrow> truncate (Some s) n = s) \<and>
   (n < length s \<longrightarrow>
      truncate (Some s) n = take n s @ ''...'' \<and> length (truncate (Some s) n) = n + 3) \<and>
   (length s = 300 \<longrightarrow>
      length (truncate (Some s) 60) = 63 \<and> drop 60 (truncate (Some s) 60) = ''...'')"
  by (auto simp: truncate_def)

theorem truncate_spec_witness:
  "length ''abc'' \<le> 5 \<and> truncate (Some ''abc'') 5 = ''abc'' \<and>
   2 < length ''abcdef'' \<and> truncate (Some ''abcdef'') 2 = ''ab...'' \<and>
   length (truncate (Some ''abcdef'') 2) = 2 + 3 \<and>
   length (replicate 300 CHR ''x'') = 300 \<and>
   length (truncate (Some (replicate 300 CHR ''x'')) 60) = 63 \<and>
   drop 60 (truncate (Some (replicate 300 CHR ''x'')) 60) = ''...''"
  using truncate_spec [of "''abc''" 5] truncate_spec [of "''abcdef''" 2]
    truncate_spec [of "replicate 300 CHR ''x''" 60]
  by simp

end
